theory Spec2Isabelle
  imports Main "HOL-Library.AList"
begin

section \<open>Data model\<close>

text \<open>
  The names of the generated manifest types (\<open>A.TaskName\<close>, \<open>A.TrackedFileName\<close>,
  \<open>A.TrackedFileHash\<close>, \<open>A.Timestamp\<close>) are all strings in the source.
\<close>

type_synonym TaskName = string

type_synonym TrackedFileName = string

type_synonym TrackedFileHash = string

type_synonym Timestamp = string

text \<open>\<open>A.TrackedFileData\<close>: the cached snapshot of one file, \<open>{hash, timestamp}\<close>.\<close>

record TrackedFileData =
  hash :: TrackedFileHash
  timestamp :: Timestamp

text \<open>
  The file system as the program sees it through \<open>Deno.lstat\<close>, \<open>fs.exists\<close> and the hash
  function. A path with no entry makes \<open>Deno.lstat\<close> raise \<open>Deno.errors.NotFound\<close>;
  \<open>Unreadable\<close> is an entry on which it raises any other error. The modification time of
  an entry may be null (\<open>stat.mtime\<close> has type \<open>Date | null\<close>); when present it is kept
  in the form \<open>toISOString\<close> gives.
\<close>

datatype fsentry = Entry (mtime: "Timestamp option") (content: string) | Unreadable

type_synonym filesys = "TrackedFileName \<rightharpoonup> fsentry"

text \<open>Task objects are compared by reference; a reference is an index into the heap of tasks.\<close>

type_synonym tid = nat

datatype error = IOError | TypeError | UserError string

text \<open>
  What a run does besides computing values: calls of the logging module, of the file
  system, of the pluggable hash function, of a task's predicate and action, and of the
  manifest's \<open>load\<close> and \<open>save\<close>.
\<close>

datatype event =
    LogInfo string
  | LogError string
  | Lstat TrackedFileName
  | FsExists TrackedFileName
  | GetHash TrackedFileName
  | UpToDateCall tid
  | ActionCall tid
  | ActionReturn tid
  | ExecPushed tid tid
  | SetFileData TaskName TrackedFileName
  | ConsoleLog "(string \<times> string) list"
  | ManifestLoad
  | ManifestSave

text \<open>
  An asynchronous method that runs without interleaving: the events it emits, in order,
  and either the error it raises or the value it returns.
\<close>

type_synonym 'a io = "event list \<times> (error + 'a)"

definition ret :: "'a \<Rightarrow> 'a io" where
  "ret x = ([], Inr x)"

definition bind_io :: "'a io \<Rightarrow> ('a \<Rightarrow> 'b io) \<Rightarrow> 'b io" where
  "bind_io m k =
     (case m of
        (es, Inl e) \<Rightarrow> (es, Inl e)
      | (es, Inr x) \<Rightarrow> (case k x of (es', r) \<Rightarrow> (es @ es', r)))"

section \<open>TrackedFile\<close>

text \<open>
  \<open>gethash\<close> is the pluggable hash function: given the path it reads whatever it likes
  of the file system and returns a digest or raises.
\<close>

record TrackedFile =
  path :: TrackedFileName
  gethash :: "filesys \<Rightarrow> TrackedFileName \<Rightarrow> error + TrackedFileHash"

text \<open>
  \<open>filehash\<close>, the default hash function: \<open>fs.readFileStr\<close> followed by SHA-1 in hex.
  The digest itself belongs to the standard library and is a parameter.
\<close>

definition filehash ::
  "(string \<Rightarrow> TrackedFileHash) \<Rightarrow> filesys \<Rightarrow> TrackedFileName \<Rightarrow> error + TrackedFileHash" where
  "filehash sha1 fsys filename =
     (case fsys filename of
        Some (Entry m str) \<Rightarrow> Inr (sha1 str)
      | _ \<Rightarrow> Inl IOError)"

record FileParams =
  fp_path :: string
  fp_gethash :: "(filesys \<Rightarrow> TrackedFileName \<Rightarrow> error + TrackedFileHash) option"

text \<open>
  The constructor (and \<open>file\<close>, which only calls it). \<open>path.posix.resolve\<close> belongs to the
  standard library and is a parameter.
\<close>

definition new_TrackedFile ::
  "(string \<Rightarrow> TrackedFileName) \<Rightarrow> (string \<Rightarrow> TrackedFileHash) \<Rightarrow> FileParams \<Rightarrow> TrackedFile" where
  "new_TrackedFile resolve sha1 fileParams =
     \<lparr> path = resolve (fp_path fileParams),
       gethash = (case fp_gethash fileParams of Some g \<Rightarrow> g | None \<Rightarrow> filehash sha1) \<rparr>"

text \<open>
  \<open>getTimestamp\<close>: \<open>Deno.lstat\<close>, then \<open>mtime?.toISOString() || ""\<close>; \<open>NotFound\<close> is caught
  and gives the empty string, every other error is raised again.
\<close>

definition getTimestamp :: "filesys \<Rightarrow> TrackedFile \<Rightarrow> Timestamp io" where
  "getTimestamp fsys f =
     ([Lstat (path f)],
      case fsys (path f) of
        None \<Rightarrow> Inr ''''
      | Some Unreadable \<Rightarrow> Inl IOError
      | Some (Entry m c) \<Rightarrow> Inr (case m of None \<Rightarrow> '''' | Some d \<Rightarrow> d))"

text \<open>
  \<open>exists\<close>: one log line, then \<open>fs.exists\<close> of the standard library, which is
  \<open>Deno.lstat\<close> with \<open>NotFound\<close> caught as \<open>false\<close> and every other error raised again.
\<close>

definition exists_file :: "filesys \<Rightarrow> TrackedFile \<Rightarrow> bool io" where
  "exists_file fsys f =
     ([LogInfo (''checking exists '' @ path f), FsExists (path f)],
      case fsys (path f) of
        None \<Rightarrow> Inr False
      | Some Unreadable \<Rightarrow> Inl IOError
      | Some (Entry m c) \<Rightarrow> Inr True)"

definition getHash :: "filesys \<Rightarrow> TrackedFile \<Rightarrow> TrackedFileHash io" where
  "getHash fsys f =
     bind_io (exists_file fsys f) (\<lambda>ex.
       if \<not> ex then ret ''''
       else ([LogInfo (''checking hash on '' @ path f), GetHash (path f)],
             gethash f fsys (path f)))"

text \<open>\<open>isUpToDate\<close>: whether the file is up to date with respect to the cached data.\<close>

definition isUpToDate :: "filesys \<Rightarrow> TrackedFile \<Rightarrow> TrackedFileData option \<Rightarrow> bool io" where
  "isUpToDate fsys f tData =
     (case tData of
        None \<Rightarrow> ret False
      | Some d \<Rightarrow>
          bind_io (getTimestamp fsys f) (\<lambda>mtime.
            if mtime = timestamp d then ret True
            else bind_io (getHash fsys f) (\<lambda>h. ret (h = hash d))))"

text \<open>\<open>getFileData\<close>: hash first, then timestamp, as the object literal evaluates them.\<close>

definition getFileData :: "filesys \<Rightarrow> TrackedFile \<Rightarrow> TrackedFileData io" where
  "getFileData fsys f =
     bind_io (getHash fsys f) (\<lambda>h.
       bind_io (getTimestamp fsys f) (\<lambda>ts.
         ret \<lparr> hash = h, timestamp = ts \<rparr>))"

text \<open>\<open>getFileDataOrCached\<close> returns \<open>{tData, upToDate}\<close>, here a pair.\<close>

definition getFileDataOrCached ::
  "filesys \<Rightarrow> TrackedFile \<Rightarrow> TrackedFileData option \<Rightarrow> (TrackedFileData \<times> bool) io" where
  "getFileDataOrCached fsys f tData =
     (case tData of
        None \<Rightarrow> bind_io (getFileData fsys f) (\<lambda>d. ret (d, False))
      | Some c \<Rightarrow>
          bind_io (isUpToDate fsys f (Some c)) (\<lambda>u.
            if u then ret (c, True)
            else bind_io (getFileData fsys f) (\<lambda>d. ret (d, False))))"

section \<open>The manifest\<close>

text \<open>
  Modelled from the spec: \<open>manifest.ts\<close> (the classes \<open>Manifest\<close> and \<open>TaskManifest\<close>) is
  not among the sources. The spec gives its contract: a store from task name to a map
  from file path to the cached snapshot, with \<open>getOrCreate\<close>, \<open>get\<close>, \<open>set\<close>, and
  \<open>load\<close> and \<open>save\<close> against durable storage, where missing storage is an empty cache.
  The handle a task holds on its record is the name the record is stored under.
\<close>

type_synonym TaskManifest = "TrackedFileName \<rightharpoonup> TrackedFileData"

type_synonym Manifest = "TaskName \<rightharpoonup> TaskManifest"

text \<open>
  Modelled from the spec: \<open>manifest.tasks.getOrInsert\<close> (the spec's \<open>getOrCreate\<close>), which
  returns the record of the task, inserting an empty one when there is none.
\<close>

definition getOrInsert :: "TaskName \<Rightarrow> Manifest \<Rightarrow> Manifest" where
  "getOrInsert n m = (case m n of None \<Rightarrow> m(n \<mapsto> Map.empty) | Some tm \<Rightarrow> m)"

text \<open>
  Modelled from the spec: \<open>TaskManifest.getFileData\<close> and \<open>TaskManifest.setFileData\<close> (the
  spec's \<open>get\<close> and \<open>set\<close>), which read and write one cached snapshot.
\<close>

definition tm_getFileData :: "Manifest \<Rightarrow> TaskName \<Rightarrow> TrackedFileName \<Rightarrow> TrackedFileData option" where
  "tm_getFileData m n p = (case m n of None \<Rightarrow> None | Some tm \<Rightarrow> tm p)"

definition tm_setFileData :: "TaskName \<Rightarrow> TrackedFileName \<Rightarrow> TrackedFileData \<Rightarrow> Manifest \<Rightarrow> Manifest" where
  "tm_setFileData n p d m = m(n \<mapsto> (case m n of None \<Rightarrow> Map.empty | Some tm \<Rightarrow> tm)(p \<mapsto> d))"

section \<open>Task\<close>

text \<open>
  A JavaScript \<open>Set\<close> keeps insertion order and ignores a value it already holds.
  \<open>task_deps\<close> is such a set of task references. \<open>file_deps\<close> and \<open>targets\<close> are sets of
  \<open>TrackedFile\<close> objects compared by reference: their lists hold the distinct objects in
  insertion order.
\<close>

definition set_add :: "'a \<Rightarrow> 'a list \<Rightarrow> 'a list" where
  "set_add x xs = (if x \<in> set xs then xs else xs @ [x])"

definition new_Set :: "'a list \<Rightarrow> 'a list" where
  "new_Set xs = foldl (\<lambda>acc x. set_add x acc) [] xs"

text \<open>
  The action and the predicate are the user's functions: each reads the file system, the
  action changes it, and each may raise. \<open>taskManifest\<close> is the handle \<open>setup\<close> obtains
  (the manifest's entry under the task's name) and is null before. The fields of
  \<open>TaskParams\<close> and \<open>FileParams\<close> carry a prefix, since a record's fields are global
  names.
\<close>

record Task =
  name :: TaskName
  description :: "string option"
  action :: "filesys \<Rightarrow> error + filesys"
  task_deps :: "tid list"
  file_deps :: "TrackedFile list"
  targets :: "TrackedFile list"
  taskManifest :: "TaskName option"
  uptodate :: "filesys \<Rightarrow> error + bool"

datatype dep = DepTask tid | DepFile TrackedFile

record TaskParams =
  tp_name :: TaskName
  tp_description :: "string option"
  tp_action :: "filesys \<Rightarrow> error + filesys"
  tp_task_deps :: "tid list option"
  tp_file_deps :: "TrackedFile list option"
  tp_deps :: "dep list option"
  tp_targets :: "TrackedFile list option"
  tp_uptodate :: "(filesys \<Rightarrow> error + bool) option"

text \<open>\<open>runAlways\<close>: an up-to-date predicate that is always false.\<close>

definition runAlways :: "filesys \<Rightarrow> error + bool" where
  "runAlways fsys = Inr False"

fun or_empty :: "'a list option \<Rightarrow> 'a list" where
  "or_empty None = []"
| "or_empty (Some xs) = xs"

text \<open>
  The two type guards, and \<open>getTaskDeps\<close> and \<open>getTrackedFiles\<close>: the list given
  directly (or none), then the elements of \<open>deps\<close> that pass the guard, as what they are.
\<close>

fun isTask :: "dep \<Rightarrow> bool" where
  "isTask (DepTask t) = True"
| "isTask (DepFile f) = False"

fun isTrackedFile :: "dep \<Rightarrow> bool" where
  "isTrackedFile (DepTask t) = False"
| "isTrackedFile (DepFile f) = True"

definition getTaskDeps :: "tid list option \<Rightarrow> dep list option \<Rightarrow> tid list" where
  "getTaskDeps td ds =
     or_empty td @ concat (map (\<lambda>d. case d of DepTask t \<Rightarrow> [t] | DepFile f \<Rightarrow> [])
                             (filter isTask (or_empty ds)))"

definition getTrackedFiles :: "TrackedFile list option \<Rightarrow> dep list option \<Rightarrow> TrackedFile list" where
  "getTrackedFiles fd ds =
     or_empty fd @ concat (map (\<lambda>d. case d of DepTask t \<Rightarrow> [] | DepFile f \<Rightarrow> [f])
                             (filter isTrackedFile (or_empty ds)))"

definition new_Task :: "TaskParams \<Rightarrow> Task" where
  "new_Task taskParams =
     \<lparr> name = tp_name taskParams,
       description = tp_description taskParams,
       action = tp_action taskParams,
       task_deps = new_Set (getTaskDeps (tp_task_deps taskParams) (tp_deps taskParams)),
       file_deps = getTrackedFiles (tp_file_deps taskParams) (tp_deps taskParams),
       targets = or_empty (tp_targets taskParams),
       taskManifest = None,
       uptodate = (case tp_uptodate taskParams of Some u \<Rightarrow> u | None \<Rightarrow> runAlways) \<rparr>"

section \<open>The state of one process\<close>

text \<open>
  Where the activation of \<open>Task.exec\<close> on a task stands: never entered past the two guards,
  running synchronous code, suspended in \<open>execDependencies\<close> on the promises it pushed,
  suspended on the action, suspended on the \<open>Promise.all\<close> after the action, or returned.
\<close>

datatype cont = NotCalled | Running | AwaitDeps "tid list" | AwaitAction | AwaitAfterAction | Returned

text \<open>
  The module's globals (\<open>manifest\<close>, \<open>taskRegister\<close>, \<open>targetRegister\<close>, \<open>doneTasks\<close>,
  \<open>inprogressTasks\<close>), the heap of task objects, the file system, the durable storage
  behind the manifest, the suspended activations, the promises nobody awaits
  (\<open>detached\<close>: task and file dependency of a snapshot started after the action), the
  events so far and the error that ended the run, if any. \<open>taskRegister\<close> is a \<open>Map\<close>,
  whose \<open>values()\<close> come in insertion order: an association list.
\<close>

record state =
  fs :: filesys
  heap :: "Task list"
  manifest :: Manifest
  storage :: "Manifest option"
  taskRegister :: "(TaskName \<times> tid) list"
  targetRegister :: "TrackedFileName \<rightharpoonup> tid"
  doneTasks :: "tid set"
  inprogressTasks :: "tid set"
  conts :: "tid \<Rightarrow> cont"
  detached :: "(tid \<times> TrackedFile) list"
  trace :: "event list"
  failure :: "error option"

definition emit :: "event list \<Rightarrow> state \<Rightarrow> state" where
  "emit es s = s\<lparr>trace := trace s @ es\<rparr>"

definition raise :: "error \<Rightarrow> state \<Rightarrow> state" where
  "raise e s = s\<lparr>failure := Some e\<rparr>"

text \<open>\<open>task\<close>: construct the task and register it under its name.\<close>

definition task :: "TaskParams \<Rightarrow> state \<Rightarrow> tid \<times> state" where
  "task taskParams s =
     (let t = length (heap s) in
      (t, s\<lparr>heap := heap s @ [new_Task taskParams],
            taskRegister := AList.update (tp_name taskParams) t (taskRegister s)\<rparr>))"

text \<open>\<open>Task.setup\<close>.\<close>

definition Task_setup :: "tid \<Rightarrow> state \<Rightarrow> state" where
  "Task_setup t s =
     (let T = heap s ! t in
      s\<lparr>targetRegister := fold (\<lambda>tf r. r(path tf \<mapsto> t)) (targets T) (targetRegister s),
        manifest := getOrInsert (name T) (manifest s),
        heap := (heap s)[t := T\<lparr>taskManifest := Some (name T)\<rparr>]\<rparr>)"

section \<open>Task.exec: the synchronous prefix\<close>

text \<open>
  Lines 98 to 106 of \<open>exec\<close>: the task is added to \<open>inprogressTasks\<close>, and for each file
  dependency that \<open>targetRegister\<close> knows as a target, the producing task is added to
  \<open>task_deps\<close>.
\<close>

definition infer_deps :: "(TrackedFileName \<rightharpoonup> tid) \<Rightarrow> TrackedFile list \<Rightarrow> tid list \<Rightarrow> tid list" where
  "infer_deps reg fds deps =
     foldl (\<lambda>acc fd. case reg (path fd) of None \<Rightarrow> acc | Some t \<Rightarrow> set_add t acc) deps fds"

definition enter :: "tid \<Rightarrow> state \<Rightarrow> state" where
  "enter t s =
     s\<lparr>inprogressTasks := insert t (inprogressTasks s),
       conts := (conts s)(t := Running),
       heap := (heap s)[t := (heap s ! t)\<lparr>task_deps :=
                  infer_deps (targetRegister s) (file_deps (heap s ! t)) (task_deps (heap s ! t))\<rparr>]\<rparr>"

text \<open>
  \<open>execDependencies\<close> calls \<open>dep.exec()\<close> inside its loop, and a call of an \<open>async\<close> function
  runs synchronously up to its first \<open>await\<close> that suspends: the called task is entered,
  runs its own loop, and so on, before the caller's loop goes on. The call stack is
  explicit here: a frame is a task in its loop, the dependencies it has not visited yet
  and the promises it has pushed (\<open>promisesInProgress\<close>). A frame whose loop is over
  suspends on \<open>Promise.all\<close> of its promises. The loop calls \<open>exec\<close> only on a
  dependency that is neither done nor in progress, so the two guards of the called
  \<open>exec\<close> let it pass. The event \<open>ExecPushed t d\<close> records that
  the loop of \<open>t\<close> called \<open>exec\<close> on \<open>d\<close> and pushed its promise. A reference is always
  to an object of the heap; the test \<open>d < length (heap s)\<close> says so.
\<close>

type_synonym frame = "tid \<times> tid list \<times> tid list"

function exec_sync :: "frame list \<Rightarrow> state \<Rightarrow> state" where
  "exec_sync [] s = s"
| "exec_sync ((t, [], ps) # st) s = exec_sync st (s\<lparr>conts := (conts s)(t := AwaitDeps ps)\<rparr>)"
| "exec_sync ((t, d # ds, ps) # st) s =
     (if d \<notin> doneTasks s \<and> d \<notin> inprogressTasks s \<and> d < length (heap s)
      then exec_sync ((d, task_deps (heap (enter d s) ! d), []) # (t, ds, ps @ [d]) # st)
             (emit [ExecPushed t d] (enter d s))
      else exec_sync ((t, ds, ps) # st) s)"
  by pat_completeness auto

definition unstarted :: "state \<Rightarrow> tid set" where
  "unstarted s = {i. i < length (heap s) \<and> i \<notin> doneTasks s \<and> i \<notin> inprogressTasks s}"

definition pending :: "frame list \<Rightarrow> nat" where
  "pending st = sum_list (map (\<lambda>fr. Suc (length (fst (snd fr)))) st)"

lemma finite_unstarted: "finite (unstarted s)"
  by (simp add: unstarted_def)

lemma unstarted_conts [simp]: "unstarted (s\<lparr>conts := c\<rparr>) = unstarted s"
  by (simp add: unstarted_def)

lemma unstarted_enter:
  "unstarted (emit es (enter d s)) = unstarted s - {d}"
  by (auto simp: unstarted_def emit_def enter_def)

lemma card_unstarted_enter:
  assumes "d \<notin> doneTasks s" "d \<notin> inprogressTasks s" "d < length (heap s)"
  shows "card (unstarted (emit es (enter d s))) < card (unstarted s)"
proof -
  have "d \<in> unstarted s" using assms by (simp add: unstarted_def)
  then show ?thesis
    unfolding unstarted_enter by (rule card_Diff1_less [OF finite_unstarted])
qed

termination exec_sync
proof (relation "measures [\<lambda>(st, s). card (unstarted s), \<lambda>(st, s). pending st]", goal_cases)
  case 1
  show ?case by simp
next
  case (2 t ps st s)
  show ?case by (simp add: pending_def)
next
  case (3 t d ds ps st s)
  then show ?case by (simp add: card_unstarted_enter)
next
  case (4 t d ds ps st s)
  show ?case by (simp add: pending_def)
qed

text \<open>\<open>exec\<close> from its first line to its first suspension.\<close>

definition exec_call :: "tid \<Rightarrow> state \<Rightarrow> state" where
  "exec_call t s =
     (if t \<in> doneTasks s then s
      else if t \<in> inprogressTasks s then s
      else if \<not> t < length (heap s) then s
      else exec_sync [(t, task_deps (heap (enter t s) ! t), [])] (enter t s))"

section \<open>Task.exec: the up-to-date checks\<close>

text \<open>
  \<open>checkFileDeps\<close>. The loop calls \<open>getFileDataOrCached\<close> on every file dependency with
  the cached data read at that moment, so every read of the cache sees the manifest as it
  was before the loop (\<open>m0\<close>); the callbacks then write the returned data back and fold
  the flags. The file dependencies are taken in the order of the set. \<open>this.taskManifest!\<close>
  is not checked at run time: with a null handle the first \<open>taskManifest.getFileData\<close>
  raises a \<open>TypeError\<close>, and with no file dependency it is never touched.
\<close>

fun checkFileDeps_loop ::
  "filesys \<Rightarrow> Manifest \<Rightarrow> TaskName \<Rightarrow> TrackedFile list \<Rightarrow> Manifest \<times> bool \<Rightarrow> (Manifest \<times> bool) io" where
  "checkFileDeps_loop fsys m0 n [] acc = ret acc"
| "checkFileDeps_loop fsys m0 n (fdep # rest) acc =
     bind_io (getFileDataOrCached fsys fdep (tm_getFileData m0 n (path fdep))) (\<lambda>r.
       bind_io ([SetFileData n (path fdep)],
                Inr (tm_setFileData n (path fdep) (fst r) (fst acc), snd acc \<and> snd r))
         (checkFileDeps_loop fsys m0 n rest))"

definition checkFileDeps :: "filesys \<Rightarrow> Manifest \<Rightarrow> Task \<Rightarrow> (Manifest \<times> bool) io" where
  "checkFileDeps fsys m T =
     (if file_deps T = [] then ret (m, True)
      else case taskManifest T of
             None \<Rightarrow> ([], Inl TypeError)
           | Some n \<Rightarrow> checkFileDeps_loop fsys m n (file_deps T) (m, True))"

text \<open>\<open>targetsExist\<close>: \<open>Promise.all\<close> of \<open>exists\<close> on every target, then "not some not".\<close>

fun exists_all :: "filesys \<Rightarrow> TrackedFile list \<Rightarrow> bool list io" where
  "exists_all fsys [] = ret []"
| "exists_all fsys (tf # tfs) =
     bind_io (exists_file fsys tf) (\<lambda>b. bind_io (exists_all fsys tfs) (\<lambda>bs. ret (b # bs)))"

definition targetsExist :: "filesys \<Rightarrow> Task \<Rightarrow> bool io" where
  "targetsExist fsys T = bind_io (exists_all fsys (targets T)) (\<lambda>tex. ret (\<not> list_ex (\<lambda>t. \<not> t) tex))"

definition call_uptodate :: "filesys \<Rightarrow> tid \<Rightarrow> Task \<Rightarrow> bool io" where
  "call_uptodate fsys t T = ([UpToDateCall t], uptodate T fsys)"

definition show_bool :: "bool \<Rightarrow> string" where
  "show_bool b = (if b then ''true'' else ''false'')"

definition log_info :: "string \<Rightarrow> unit io" where
  "log_info msg = ([LogInfo msg], Inr ())"

text \<open>
  Lines 110 to 119 of \<open>exec\<close>: \<open>actualUpToDate\<close>, with \<open>&&\<close> evaluating its right operand
  only when the left one is true, and a log line after each conjunct.
\<close>

definition exec_checks :: "tid \<Rightarrow> state \<Rightarrow> (Manifest \<times> bool) io" where
  "exec_checks t s =
     (let T = heap s ! t in
      bind_io (checkFileDeps (fs s) (manifest s) T) (\<lambda>r1.
      bind_io (log_info (name T @ '' checkFileDeps '' @ show_bool (snd r1))) (\<lambda>_.
      bind_io (if snd r1 then targetsExist (fs s) T else ret False) (\<lambda>a2.
      bind_io (log_info (name T @ '' targetsExist '' @ show_bool a2)) (\<lambda>_.
      bind_io (if a2 then call_uptodate (fs s) t T else ret False) (\<lambda>a3.
      bind_io (log_info (name T @ '' uptodate '' @ show_bool a3)) (\<lambda>_.
      ret (fst r1, a3))))))))"

section \<open>Task.exec: the segments between suspensions\<close>

text \<open>Lines 140 and 141: no suspension lies between the two, and the promise resolves.\<close>

definition mark_done :: "tid \<Rightarrow> state \<Rightarrow> state" where
  "mark_done t s =
     s\<lparr>doneTasks := insert t (doneTasks s),
       inprogressTasks := inprogressTasks s - {t},
       conts := (conts s)(t := Returned)\<rparr>"

text \<open>
  From the return of \<open>execDependencies\<close>: the checks, then either the task is up to date
  and is marked done at once, or the action is called and awaited. An error raised on
  the way ends the run.
\<close>

definition resume_exec :: "tid \<Rightarrow> state \<Rightarrow> state" where
  "resume_exec t s =
     (let T = heap s ! t in
      case exec_checks t s of
        (es, Inl e) \<Rightarrow> raise e (emit es s)
      | (es, Inr r) \<Rightarrow>
          if snd r
          then mark_done t (emit (es @ [LogInfo (''--- '' @ name T)]) (s\<lparr>manifest := fst r\<rparr>))
          else (emit (es @ [LogInfo (''starting '' @ name T), ActionCall t]) (s\<lparr>manifest := fst r\<rparr>))
                 \<lparr>conts := (conts s)(t := AwaitAction)\<rparr>)"

text \<open>
  From the return of the action (lines 126 to 136): for every file dependency
  \<open>getFileData()\<close> is called and a callback that writes the manifest is chained to it,
  but the resulting promise \<open>p\<close> is not pushed to \<open>promisesInProgress\<close>, so the
  \<open>Promise.all\<close> that follows awaits the empty list. The snapshots go on as promises
  nobody awaits.
\<close>

definition action_done :: "tid \<Rightarrow> state \<Rightarrow> state" where
  "action_done t s =
     (let T = heap s ! t in
      case action T (fs s) of
        Inl e \<Rightarrow> raise e s
      | Inr fs' \<Rightarrow>
          (emit [ActionReturn t, LogInfo (''completed '' @ name T)] s)
            \<lparr>fs := fs',
             detached := detached s @ map (Pair t) (file_deps T),
             conts := (conts s)(t := AwaitAfterAction)\<rparr>)"

text \<open>
  One of the promises nobody awaits runs to its end: \<open>getFileData\<close>, then
  \<open>this.taskManifest?.setFileData\<close>, which does nothing on a null handle.
\<close>

definition run_detached :: "nat \<Rightarrow> state \<Rightarrow> state" where
  "run_detached k s =
     (let t = fst (detached s ! k); fdep = snd (detached s ! k);
          s1 = s\<lparr>detached := take k (detached s) @ drop (Suc k) (detached s)\<rparr> in
      case getFileData (fs s) fdep of
        (es, Inl e) \<Rightarrow> raise e (emit es s1)
      | (es, Inr x) \<Rightarrow>
          (case taskManifest (heap s ! t) of
             None \<Rightarrow> emit es s1
           | Some n \<Rightarrow>
               (emit (es @ [SetFileData n (path fdep)]) s1)
                 \<lparr>manifest := tm_setFileData n (path fdep) x (manifest s)\<rparr>))"

section \<open>Scheduling\<close>

text \<open>
  All code runs on one thread, and a segment between two suspensions runs without
  interruption. Which suspended activation goes on next depends on when the file system
  and the actions answer, so any order is possible: a schedule is the list of the
  segments that run, in order. \<open>Resume t\<close> needs every promise \<open>t\<close> pushed in
  \<open>execDependencies\<close> to be resolved, \<open>ActionDone t\<close> is the return of the action,
  \<open>Finish t\<close> the return of the \<open>Promise.all\<close> after it, and \<open>Detached k\<close> the end of
  the \<open>k\<close>-th promise nobody awaits. The reads of the file system within one segment see
  one file system, and an action changes the file system when it returns. The checks of
  a task are one segment: they touch neither of the two sets and call no action, so the
  order of these is not restricted by it. After an error nothing runs.
\<close>

datatype label = Resume tid | ActionDone tid | Finish tid | Detached nat

fun step :: "label \<Rightarrow> state \<Rightarrow> state option" where
  "step (Resume t) s =
     (case conts s t of
        AwaitDeps ps \<Rightarrow>
          if failure s = None \<and> list_all (\<lambda>d. conts s d = Returned) ps
          then Some (resume_exec t s) else None
      | _ \<Rightarrow> None)"
| "step (ActionDone t) s =
     (if failure s = None \<and> conts s t = AwaitAction then Some (action_done t s) else None)"
| "step (Finish t) s =
     (if failure s = None \<and> conts s t = AwaitAfterAction then Some (mark_done t s) else None)"
| "step (Detached k) s =
     (if failure s = None \<and> k < length (detached s) then Some (run_detached k s) else None)"

fun run :: "label list \<Rightarrow> state \<Rightarrow> state option" where
  "run [] s = Some s"
| "run (l # ls) s = (case step l s of None \<Rightarrow> None | Some s' \<Rightarrow> run ls s')"

section \<open>The entry point\<close>

text \<open>
  Modelled from the spec: \<open>Manifest.load\<close> and \<open>Manifest.save\<close>. \<open>load\<close> fills the manifest
  from durable storage, and missing storage is an empty cache; \<open>save\<close> writes the manifest
  as it is at that moment to durable storage.
\<close>

definition manifest_load :: "state \<Rightarrow> state" where
  "manifest_load s =
     (emit [ManifestLoad] s)\<lparr>manifest := (case storage s of None \<Rightarrow> Map.empty | Some m \<Rightarrow> m)\<rparr>"

definition manifest_save :: "state \<Rightarrow> state" where
  "manifest_save s = (emit [ManifestSave] s)\<lparr>storage := Some (manifest s)\<rparr>"

text \<open>
  \<open>exec(cliArgs)\<close>. Parsing the flags belongs to the standard library: the argument here
  is the list of positional arguments, \<open>args["_"]\<close>, whose first element the template
  string turns into the task name (\<open>undefined\<close> when there is none). \<open>textTable\<close> is not
  among the sources: of the table printed by \<open>list\<close> the event keeps the rows it is given.
  The schedule says in which order the suspended
  activations go on while the entry point awaits the task; it saves the manifest once the
  promise of the task is resolved (at once, when \<open>exec\<close> returned on one of its two
  guards), and not at all if the run ended in an error.
  The result is \<open>None\<close> for a schedule that asks for a segment that cannot run.
\<close>

definition exec_main :: "label list \<Rightarrow> string list \<Rightarrow> state \<Rightarrow> state option" where
  "exec_main sched positional s =
     (let taskName = (case positional of [] \<Rightarrow> ''undefined'' | a # _ \<Rightarrow> a) in
      if taskName = ''list''
      then Some (emit [ConsoleLog (map (\<lambda>t. (name (heap s ! t),
                          case description (heap s ! t) of None \<Rightarrow> [] | Some d \<Rightarrow> d))
                        (map snd (taskRegister s)))] s)
      else
        let s1 = manifest_load s;
            s2 = fold Task_setup (map snd (taskRegister s1)) s1 in
        case map_of (taskRegister s2) taskName of
          Some t \<Rightarrow>
            if t \<in> doneTasks s2 \<or> t \<in> inprogressTasks s2
            then (case run sched s2 of
                    None \<Rightarrow> None
                  | Some s3 \<Rightarrow> Some (manifest_save s3))
            else (case run sched (exec_call t s2) of
                    None \<Rightarrow> None
                  | Some s3 \<Rightarrow> Some (if conts s3 t = Returned then manifest_save s3 else s3))
        | None \<Rightarrow>
            Some (manifest_save (emit [LogError (''task '' @ taskName @ '' not found'')] s2)))"

text \<open>The globals as the module initialises them, before any call of \<open>task\<close>.\<close>

definition init :: "filesys \<Rightarrow> Manifest option \<Rightarrow> state" where
  "init f st =
     \<lparr> fs = f, heap = [], manifest = Map.empty, storage = st, taskRegister = [],
       targetRegister = Map.empty, doneTasks = {}, inprogressTasks = {},
       conts = (\<lambda>t. NotCalled), detached = [], trace = [], failure = None \<rparr>"

section \<open>Predicates on events and states\<close>

text \<open>
  The events of the file checks; the events that are calls of \<open>exec\<close> or of an action;
  the activations that have not called their action yet; and what holds of the two sets,
  the activations and the trace between any two segments of a run (with the call stack
  \<open>st\<close> of the synchronous prefix, which is empty between segments).
\<close>

fun file_event :: "event \<Rightarrow> bool" where
  "file_event (LogInfo m) = True"
| "file_event (Lstat p) = True"
| "file_event (FsExists p) = True"
| "file_event (GetHash p) = True"
| "file_event (SetFileData n p) = True"
| "file_event e = False"

fun is_call :: "event \<Rightarrow> bool" where
  "is_call (ActionCall t) = True"
| "is_call (ExecPushed t d) = True"
| "is_call e = False"

fun pre_action :: "cont \<Rightarrow> bool" where
  "pre_action NotCalled = True"
| "pre_action Running = True"
| "pre_action (AwaitDeps ps) = True"
| "pre_action c = False"

definition sets_ok :: "frame list \<Rightarrow> state \<Rightarrow> bool" where
  "sets_ok st s \<longleftrightarrow>
     doneTasks s \<inter> inprogressTasks s = {}
   \<and> (\<forall>t. conts s t = NotCalled \<longleftrightarrow> t \<notin> doneTasks s \<and> t \<notin> inprogressTasks s)
   \<and> (\<forall>t. conts s t = Returned \<longleftrightarrow> t \<in> doneTasks s)
   \<and> (\<forall>t. conts s t = Running \<longleftrightarrow> t \<in> fst ` set st)
   \<and> distinct (map fst st)"

definition once_ok :: "state \<Rightarrow> bool" where
  "once_ok s \<longleftrightarrow>
     (\<forall>t. pre_action (conts s t) \<longrightarrow> ActionCall t \<notin> set (trace s))
   \<and> (\<forall>t. count_list (trace s) (ActionCall t) \<le> 1)"

definition deps_ok :: "frame list \<Rightarrow> state \<Rightarrow> bool" where
  "deps_ok st s \<longleftrightarrow>
     (\<forall>t ps d. conts s t = AwaitDeps ps \<and> ExecPushed t d \<in> set (trace s) \<longrightarrow> d \<in> set ps)
   \<and> (\<forall>fr\<in>set st. \<forall>d. ExecPushed (fst fr) d \<in> set (trace s) \<longrightarrow> d \<in> set (snd (snd fr)))
   \<and> (\<forall>t d. conts s t = NotCalled \<longrightarrow> ExecPushed t d \<notin> set (trace s))
   \<and> (\<forall>t d. ExecPushed t d \<in> set (trace s) \<and> ActionCall t \<in> set (trace s) \<longrightarrow> d \<in> doneTasks s)"

definition inv_mid :: "frame list \<Rightarrow> state \<Rightarrow> bool" where
  "inv_mid st s \<longleftrightarrow> sets_ok st s \<and> once_ok s \<and> deps_ok st s"

text \<open>A process in which no task has been started.\<close>

definition fresh :: "state \<Rightarrow> bool" where
  "fresh s \<longleftrightarrow>
     doneTasks s = {} \<and> inprogressTasks s = {} \<and> (\<forall>t. conts s t = NotCalled)
   \<and> (\<forall>e\<in>set (trace s). \<not> is_call e)"

section \<open>Example processes\<close>

text \<open>
  \<open>build\<close> reads \<open>/src\<close> and produces \<open>/out\<close>; \<open>always\<close> declares nothing. A process is
  built as a script does it: \<open>task\<close> on fresh globals, then, as the entry point does,
  \<open>load\<close> and \<open>setup\<close>.
\<close>

definition ex_src :: TrackedFile where
  "ex_src = \<lparr>path = ''/src'', gethash = (\<lambda>fsys p. Inr ''h1'')\<rparr>"

definition ex_out :: TrackedFile where
  "ex_out = \<lparr>path = ''/out'', gethash = (\<lambda>fsys p. Inr ''h2'')\<rparr>"

definition ex_build :: "(filesys \<Rightarrow> error + bool) option \<Rightarrow> TaskParams" where
  "ex_build u =
     \<lparr> tp_name = ''build'', tp_description = None,
       tp_action = (\<lambda>fsys. Inr (fsys(''/out'' \<mapsto> Entry (Some ''t9'') ''bin''))),
       tp_task_deps = None, tp_file_deps = Some [ex_src], tp_deps = None,
       tp_targets = Some [ex_out], tp_uptodate = u \<rparr>"

definition ex_state :: "TaskParams \<Rightarrow> filesys \<Rightarrow> Manifest option \<Rightarrow> state" where
  "ex_state p fsys st = Task_setup 0 (manifest_load (snd (task p (init fsys st))))"

definition ex_cache :: Manifest where
  "ex_cache = [''build'' \<mapsto> [''/src'' \<mapsto> \<lparr>hash = ''h0'', timestamp = ''t1''\<rparr>]]"

definition ex_pred :: "(filesys \<Rightarrow> error + bool) option" where
  "ex_pred = Some (\<lambda>fsys. Inr True)"

definition ex_fs1 :: filesys where
  "ex_fs1 = [''/src'' \<mapsto> Entry (Some ''t1'') ''x'']"

definition ex_fs2 :: filesys where
  "ex_fs2 = [''/src'' \<mapsto> Entry (Some ''t1'') ''x'', ''/out'' \<mapsto> Entry None []]"

definition ex_always :: TaskParams where
  "ex_always =
     \<lparr> tp_name = ''always'', tp_description = None,
       tp_action = (\<lambda>fsys. Inr (fsys(''/log'' \<mapsto> Entry (Some ''t5'') ''ran''))),
       tp_task_deps = None, tp_file_deps = None, tp_deps = None,
       tp_targets = None, tp_uptodate = None \<rparr>"

text \<open>
  \<open>gen\<close> produces \<open>/gen\<close>; \<open>use\<close> lists \<open>/gen\<close> as a file dependency and copies it to
  \<open>/copy\<close>; \<open>all\<close> depends on both. The digest of a content \<open>c\<close> is written \<open>#c\<close>.
\<close>

definition ex_digest :: "string \<Rightarrow> TrackedFileHash" where
  "ex_digest c = CHR ''#'' # c"

definition ex_gen_file :: TrackedFile where
  "ex_gen_file = \<lparr>path = ''/gen'', gethash = filehash ex_digest\<rparr>"

definition ex_gen :: TaskParams where
  "ex_gen =
     \<lparr> tp_name = ''gen'', tp_description = None,
       tp_action = (\<lambda>fsys. Inr (fsys(''/gen'' \<mapsto> Entry (Some ''t2'') ''new''))),
       tp_task_deps = None, tp_file_deps = None, tp_deps = None,
       tp_targets = Some [ex_gen_file], tp_uptodate = None \<rparr>"

definition ex_use :: TaskParams where
  "ex_use =
     \<lparr> tp_name = ''use'', tp_description = None,
       tp_action = (\<lambda>fsys. Inr (fsys(''/copy'' := fsys ''/gen''))),
       tp_task_deps = None, tp_file_deps = Some [ex_gen_file], tp_deps = None,
       tp_targets = None, tp_uptodate = None \<rparr>"

definition ex_all :: TaskParams where
  "ex_all =
     \<lparr> tp_name = ''all'', tp_description = None,
       tp_action = (\<lambda>fsys. Inr fsys),
       tp_task_deps = Some [0, 1], tp_file_deps = None, tp_deps = None,
       tp_targets = None, tp_uptodate = None \<rparr>"

definition ex_proc :: state where
  "ex_proc =
     snd (task ex_all (snd (task ex_use (snd (task ex_gen
       (init [''/gen'' \<mapsto> Entry (Some ''t1'') ''old''] None))))))"

text \<open>The process as the entry point has it when it calls \<open>exec\<close> on the named task.\<close>

definition ex_ready :: state where
  "ex_ready = fold Task_setup (map snd (taskRegister ex_proc)) (manifest_load ex_proc)"

definition ex_race_mid :: state where
  "ex_race_mid = the (run [Resume 0, Resume 1, ActionDone 1] (exec_call 2 ex_ready))"

definition ex_race_end :: state where
  "ex_race_end =
     the (run [Finish 1, ActionDone 0, Finish 0, Resume 2, ActionDone 2, Finish 2] ex_race_mid)"

definition ex_full :: "label list" where
  "ex_full = [Resume 0, Resume 1, ActionDone 1, Finish 1, ActionDone 0, Finish 0,
              Resume 2, ActionDone 2, Finish 2]"

definition ex_chain :: state where
  "ex_chain = the (run [Resume 0, ActionDone 0, Finish 0, Resume 1, ActionDone 1]
                     (exec_call 1 ex_ready))"

text \<open>
  \<open>fmt\<close> rewrites the file it depends on.
\<close>

definition ex_a :: TrackedFile where
  "ex_a = \<lparr>path = ''/a'', gethash = filehash ex_digest\<rparr>"

definition ex_fmt :: TaskParams where
  "ex_fmt =
     \<lparr> tp_name = ''fmt'', tp_description = None,
       tp_action = (\<lambda>fsys. Inr (fsys(''/a'' \<mapsto> Entry (Some ''t2'') ''tidy''))),
       tp_task_deps = None, tp_file_deps = Some [ex_a], tp_deps = None,
       tp_targets = None, tp_uptodate = None \<rparr>"

definition ex_fmt_proc :: state where
  "ex_fmt_proc = snd (task ex_fmt (init [''/a'' \<mapsto> Entry (Some ''t1'') ''raw''] None))"

definition ex_fmt_end :: state where
  "ex_fmt_end = the (exec_main [Resume 0, ActionDone 0, Finish 0] [''fmt''] ex_fmt_proc)"

section \<open>The result monad\<close>

lemma bind_io_Inr [simp]:
  "bind_io (es, Inr x) k = (es @ fst (k x), snd (k x))"
  by (simp add: bind_io_def split: prod.splits)

lemma bind_io_Inl [simp]:
  "bind_io (es, Inl e) k = (es, Inl e)"
  by (simp add: bind_io_def)

lemma bind_io_ret [simp]:
  "bind_io (ret x) k = k x"
  by (simp add: ret_def)

section \<open>Properties of TrackedFile\<close>

lemma getTimestamp_events: "fst (getTimestamp fsys f) = [Lstat (path f)]"
  by (simp add: getTimestamp_def)

lemma isUpToDate_fast:
  assumes "snd (getTimestamp fsys f) = Inr (timestamp d)"
  shows "isUpToDate fsys f (Some d) = ([Lstat (path f)], Inr True)"
proof -
  have "getTimestamp fsys f = ([Lstat (path f)], Inr (timestamp d))"
    using assms getTimestamp_events [of fsys f] by (cases "getTimestamp fsys f") simp
  then show ?thesis by (simp add: isUpToDate_def ret_def)
qed

lemma isUpToDate_slow:
  assumes "snd (getTimestamp fsys f) = Inr ts" "ts \<noteq> timestamp d"
    and "snd (getHash fsys f) = Inr h"
  shows "snd (isUpToDate fsys f (Some d)) = Inr (h = hash d)"
proof -
  have t: "getTimestamp fsys f = ([Lstat (path f)], Inr ts)"
    using assms(1) getTimestamp_events [of fsys f] by (cases "getTimestamp fsys f") simp
  obtain es where h: "getHash fsys f = (es, Inr h)"
    using assms(3) by (cases "getHash fsys f") simp
  show ?thesis using assms(2) by (simp add: isUpToDate_def t h ret_def)
qed

text \<open>
  Claim C2. \<open>isUpToDate\<close> returns false when there is no cached snapshot. With a cached
  snapshot \<open>d1\<close> whose timestamp equals the live one it returns true, and all it did was
  the one \<open>lstat\<close> of \<open>getTimestamp\<close>: the hash function was not called. With a cached
  snapshot \<open>d2\<close> whose timestamp differs from the live one it returns true exactly when
  the live hash equals the cached hash, whatever the timestamps. (The live timestamp and
  the live hash are what \<open>getTimestamp\<close> and \<open>getHash\<close> return when they do not raise.)
\<close>

theorem C2_isUpToDate:
  "isUpToDate fsys f None = ([], Inr False)
   \<and> (snd (getTimestamp fsys f) = Inr (timestamp d1) \<longrightarrow>
        snd (isUpToDate fsys f (Some d1)) = Inr True
        \<and> fst (isUpToDate fsys f (Some d1)) = [Lstat (path f)]
        \<and> GetHash (path f) \<notin> set (fst (isUpToDate fsys f (Some d1))))
   \<and> (snd (getTimestamp fsys f) = Inr ts \<and> ts \<noteq> timestamp d2 \<and> snd (getHash fsys f) = Inr h \<longrightarrow>
        snd (isUpToDate fsys f (Some d2)) = Inr (h = hash d2))"
proof (intro conjI impI)
  show "isUpToDate fsys f None = ([], Inr False)"
    by (simp add: isUpToDate_def ret_def)
next
  assume a: "snd (getTimestamp fsys f) = Inr (timestamp d1)"
  show "snd (isUpToDate fsys f (Some d1)) = Inr True"
    by (simp add: isUpToDate_fast [OF a])
  show "fst (isUpToDate fsys f (Some d1)) = [Lstat (path f)]"
    by (simp add: isUpToDate_fast [OF a])
  show "GetHash (path f) \<notin> set (fst (isUpToDate fsys f (Some d1)))"
    by (simp add: isUpToDate_fast [OF a])
next
  assume "snd (getTimestamp fsys f) = Inr ts \<and> ts \<noteq> timestamp d2 \<and> snd (getHash fsys f) = Inr h"
  then show "snd (isUpToDate fsys f (Some d2)) = Inr (h = hash d2)"
    by (simp add: isUpToDate_slow)
qed

text \<open>
  An instance: the file \<open>/a\<close> has timestamp \<open>t1\<close> and a hash function that answers \<open>h1\<close>.
  Against the cached snapshot \<open>(zz, t1)\<close> the timestamp decides; against \<open>(h1, t0)\<close>,
  a change of timestamp only, the hash decides, and the file is up to date.
\<close>

theorem C2_isUpToDate_witness:
  "snd (getTimestamp [''/a'' \<mapsto> Entry (Some ''t1'') ''x'']
          \<lparr>path = ''/a'', gethash = (\<lambda>fsys p. Inr ''h1'')\<rparr>)
     = Inr (timestamp \<lparr>hash = ''zz'', timestamp = ''t1''\<rparr>)
   \<and> ''t1'' \<noteq> timestamp \<lparr>hash = ''h1'', timestamp = ''t0''\<rparr>
   \<and> snd (getHash [''/a'' \<mapsto> Entry (Some ''t1'') ''x'']
          \<lparr>path = ''/a'', gethash = (\<lambda>fsys p. Inr ''h1'')\<rparr>) = Inr ''h1''
   \<and> isUpToDate [''/a'' \<mapsto> Entry (Some ''t1'') ''x'']
          \<lparr>path = ''/a'', gethash = (\<lambda>fsys p. Inr ''h1'')\<rparr>
          (Some \<lparr>hash = ''zz'', timestamp = ''t1''\<rparr>) = ([Lstat ''/a''], Inr True)
   \<and> snd (isUpToDate [''/a'' \<mapsto> Entry (Some ''t1'') ''x'']
          \<lparr>path = ''/a'', gethash = (\<lambda>fsys p. Inr ''h1'')\<rparr>
          (Some \<lparr>hash = ''h1'', timestamp = ''t0''\<rparr>)) = Inr True"
  using C2_isUpToDate [of "[''/a'' \<mapsto> Entry (Some ''t1'') ''x'']"
      "\<lparr>path = ''/a'', gethash = (\<lambda>fsys p. Inr ''h1'')\<rparr>"
      "\<lparr>hash = ''zz'', timestamp = ''t1''\<rparr>" "''t1''"
      "\<lparr>hash = ''h1'', timestamp = ''t0''\<rparr>" "''h1''"]
  by (simp add: getTimestamp_def getHash_def exists_file_def prod_eq_iff)

text \<open>
  Claim C10. For a file that does not exist, \<open>getTimestamp\<close> and \<open>getHash\<close> both return
  the empty string (and \<open>getHash\<close> does not call the hash function); so against a cached
  snapshot with the empty timestamp, \<open>isUpToDate\<close> returns true after the one \<open>lstat\<close>.
\<close>

theorem C10_missing_file:
  "fsys (path f) = None \<Longrightarrow>
     snd (getTimestamp fsys f) = Inr []
     \<and> snd (getHash fsys f) = Inr []
     \<and> GetHash (path f) \<notin> set (fst (getHash fsys f))
     \<and> (timestamp d = [] \<longrightarrow> isUpToDate fsys f (Some d) = ([Lstat (path f)], Inr True))"
proof (intro conjI impI)
  assume a: "fsys (path f) = None"
  show t: "snd (getTimestamp fsys f) = Inr []"
    using a by (simp add: getTimestamp_def)
  show "snd (getHash fsys f) = Inr []"
    using a by (simp add: getHash_def exists_file_def ret_def)
  show "GetHash (path f) \<notin> set (fst (getHash fsys f))"
    using a by (simp add: getHash_def exists_file_def ret_def)
  assume "timestamp d = []"
  with t show "isUpToDate fsys f (Some d) = ([Lstat (path f)], Inr True)"
    by (simp add: isUpToDate_fast)
qed

theorem C10_missing_file_witness:
  "Map.empty (path \<lparr>path = ''/gone'', gethash = (\<lambda>fsys p. Inr ''h'')\<rparr>) = None
   \<and> timestamp \<lparr>hash = ''old'', timestamp = []\<rparr> = []
   \<and> snd (getTimestamp Map.empty \<lparr>path = ''/gone'', gethash = (\<lambda>fsys p. Inr ''h'')\<rparr>) = Inr []
   \<and> snd (getHash Map.empty \<lparr>path = ''/gone'', gethash = (\<lambda>fsys p. Inr ''h'')\<rparr>) = Inr []
   \<and> isUpToDate Map.empty \<lparr>path = ''/gone'', gethash = (\<lambda>fsys p. Inr ''h'')\<rparr>
        (Some \<lparr>hash = ''old'', timestamp = []\<rparr>) = ([Lstat ''/gone''], Inr True)"
  using C10_missing_file [of Map.empty "\<lparr>path = ''/gone'', gethash = (\<lambda>fsys p. Inr ''h'')\<rparr>"
      "\<lparr>hash = ''old'', timestamp = []\<rparr>"]
  by simp

section \<open>Properties of the checks\<close>

lemma bind_io_snd: "snd m = Inr x \<Longrightarrow> bind_io m k = (fst m @ fst (k x), snd (k x))"
  by (cases m) simp

lemma bind_io_log [simp]: "bind_io (log_info msg) k = (LogInfo msg # fst (k ()), snd (k ()))"
  by (simp add: log_info_def)

lemma exec_checks_fd_false:
  assumes "snd (checkFileDeps (fs s) (manifest s) (heap s ! t)) = Inr (m, False)"
  shows "exec_checks t s =
           (fst (checkFileDeps (fs s) (manifest s) (heap s ! t))
              @ [LogInfo (name (heap s ! t) @ '' checkFileDeps false''),
                 LogInfo (name (heap s ! t) @ '' targetsExist false''),
                 LogInfo (name (heap s ! t) @ '' uptodate false'')],
            Inr (m, False))"
  by (simp add: exec_checks_def Let_def bind_io_snd [OF assms] show_bool_def ret_def)

lemma exec_checks_te_false:
  assumes "snd (checkFileDeps (fs s) (manifest s) (heap s ! t)) = Inr (m, True)"
    and "snd (targetsExist (fs s) (heap s ! t)) = Inr False"
  shows "exec_checks t s =
           (fst (checkFileDeps (fs s) (manifest s) (heap s ! t))
              @ [LogInfo (name (heap s ! t) @ '' checkFileDeps true'')]
              @ fst (targetsExist (fs s) (heap s ! t))
              @ [LogInfo (name (heap s ! t) @ '' targetsExist false''),
                 LogInfo (name (heap s ! t) @ '' uptodate false'')],
            Inr (m, False))"
  by (simp add: exec_checks_def Let_def bind_io_snd [OF assms(1)] bind_io_snd [OF assms(2)]
        show_bool_def ret_def)

lemma exec_checks_all:
  assumes "snd (checkFileDeps (fs s) (manifest s) (heap s ! t)) = Inr (m, True)"
    and "snd (targetsExist (fs s) (heap s ! t)) = Inr True"
    and "uptodate (heap s ! t) (fs s) = Inr b"
  shows "exec_checks t s =
           (fst (checkFileDeps (fs s) (manifest s) (heap s ! t))
              @ [LogInfo (name (heap s ! t) @ '' checkFileDeps true'')]
              @ fst (targetsExist (fs s) (heap s ! t))
              @ [LogInfo (name (heap s ! t) @ '' targetsExist true''),
                 UpToDateCall t,
                 LogInfo (name (heap s ! t) @ '' uptodate '' @ show_bool b)],
            Inr (m, b))"
  using assms(3)
  by (simp add: exec_checks_def Let_def bind_io_snd [OF assms(1)] bind_io_snd [OF assms(2)]
        show_bool_def ret_def call_uptodate_def)

lemma bind_io_events:
  "e \<in> set (fst (bind_io m k)) \<Longrightarrow>
     e \<in> set (fst m) \<or> (\<exists>x. snd m = Inr x \<and> e \<in> set (fst (k x)))"
  by (cases m; cases "snd m") (auto simp: bind_io_def split: prod.splits)

lemma bind_io_result:
  "snd (bind_io m k) = Inr y \<Longrightarrow> \<exists>x. snd m = Inr x \<and> snd (k x) = Inr y"
  by (cases m; cases "snd m") (auto simp: bind_io_def split: prod.splits)

lemma getTimestamp_file_event: "e \<in> set (fst (getTimestamp fsys f)) \<Longrightarrow> file_event e"
  by (auto simp: getTimestamp_def)

lemma exists_file_file_event: "e \<in> set (fst (exists_file fsys f)) \<Longrightarrow> file_event e"
  by (auto simp: exists_file_def)

lemma getHash_file_event: "e \<in> set (fst (getHash fsys f)) \<Longrightarrow> file_event e"
  unfolding getHash_def
  by (auto dest!: bind_io_events simp: ret_def exists_file_file_event split: if_splits)

lemma getFileData_file_event: "e \<in> set (fst (getFileData fsys f)) \<Longrightarrow> file_event e"
  unfolding getFileData_def
  by (auto dest!: bind_io_events simp: ret_def getHash_file_event getTimestamp_file_event)

lemma isUpToDate_file_event: "e \<in> set (fst (isUpToDate fsys f c)) \<Longrightarrow> file_event e"
  unfolding isUpToDate_def
  by (auto dest!: bind_io_events simp: ret_def getHash_file_event getTimestamp_file_event
        split: option.splits if_splits)

lemma getFileDataOrCached_file_event:
  "e \<in> set (fst (getFileDataOrCached fsys f c)) \<Longrightarrow> file_event e"
  unfolding getFileDataOrCached_def
  by (auto dest!: bind_io_events simp: ret_def getFileData_file_event isUpToDate_file_event
        split: option.splits if_splits)

lemma checkFileDeps_loop_file_event:
  "e \<in> set (fst (checkFileDeps_loop fsys m0 n fds acc)) \<Longrightarrow> file_event e"
proof (induction fds arbitrary: acc)
  case Nil
  then show ?case by (simp add: ret_def)
next
  case (Cons fd fds)
  from Cons.prems show ?case
    by (auto dest!: bind_io_events simp: getFileDataOrCached_file_event Cons.IH)
qed

lemma checkFileDeps_file_event:
  "e \<in> set (fst (checkFileDeps fsys m T)) \<Longrightarrow> file_event e"
  unfolding checkFileDeps_def
  by (auto simp: ret_def checkFileDeps_loop_file_event split: if_splits option.splits)

lemma exists_all_file_event: "e \<in> set (fst (exists_all fsys tfs)) \<Longrightarrow> file_event e"
proof (induction tfs)
  case Nil
  then show ?case by (simp add: ret_def)
next
  case (Cons tf tfs)
  from Cons.prems show ?case
    by (auto dest!: bind_io_events simp: exists_file_file_event Cons.IH ret_def)
qed

lemma targetsExist_file_event: "e \<in> set (fst (targetsExist fsys T)) \<Longrightarrow> file_event e"
  unfolding targetsExist_def
  by (auto dest!: bind_io_events simp: ret_def exists_all_file_event)

lemma exists_file_result:
  "snd (exists_file fsys f) = Inr b \<Longrightarrow> b = (fsys (path f) \<noteq> None)"
  by (auto simp: exists_file_def split: option.splits fsentry.splits)

lemma exists_all_result:
  "snd (exists_all fsys tfs) = Inr bs \<Longrightarrow> bs = map (\<lambda>x. fsys (path x) \<noteq> None) tfs"
proof (induction tfs arbitrary: bs)
  case Nil
  then show ?case by (simp add: ret_def)
next
  case (Cons tf tfs)
  from Cons.prems
  have "snd (bind_io (exists_file fsys tf)
              (\<lambda>b. bind_io (exists_all fsys tfs) (\<lambda>bs. ret (b # bs)))) = Inr bs"
    by simp
  from bind_io_result [OF this] obtain b where b: "snd (exists_file fsys tf) = Inr b"
    and r: "snd (bind_io (exists_all fsys tfs) (\<lambda>bs. ret (b # bs))) = Inr bs"
    by blast
  from bind_io_result [OF r] obtain bs' where bs': "snd (exists_all fsys tfs) = Inr bs'"
    and e: "bs = b # bs'"
    by (auto simp: ret_def)
  show ?case using exists_file_result [OF b] Cons.IH [OF bs'] e by simp
qed

lemma targetsExist_result:
  "snd (targetsExist fsys T) = Inr b \<Longrightarrow> b = (\<forall>x\<in>set (targets T). fsys (path x) \<noteq> None)"
  unfolding targetsExist_def
  by (auto dest!: bind_io_result exists_all_result simp: ret_def list_ex_iff)

lemma exists_all_total:
  "\<forall>x\<in>set tfs. fsys (path x) \<noteq> Some Unreadable \<Longrightarrow> \<exists>bs. snd (exists_all fsys tfs) = Inr bs"
proof (induction tfs)
  case Nil
  then show ?case by (simp add: ret_def)
next
  case (Cons tf tfs)
  then obtain bs where bs: "snd (exists_all fsys tfs) = Inr bs" by auto
  have "\<exists>b. snd (exists_file fsys tf) = Inr b"
    using Cons.prems by (auto simp: exists_file_def split: option.splits fsentry.splits)
  then obtain b where b: "snd (exists_file fsys tf) = Inr b" ..
  show ?case by (simp add: bind_io_snd [OF b] bind_io_snd [OF bs] ret_def)
qed

lemma targetsExist_total:
  assumes "\<forall>x\<in>set (targets T). fsys (path x) \<noteq> Some Unreadable"
  shows "snd (targetsExist fsys T) = Inr (\<forall>x\<in>set (targets T). fsys (path x) \<noteq> None)"
proof -
  obtain bs where bs: "snd (exists_all fsys (targets T)) = Inr bs"
    using exists_all_total [OF assms] ..
  then have "\<exists>b. snd (targetsExist fsys T) = Inr b"
    by (simp add: targetsExist_def bind_io_snd [OF bs] ret_def)
  then show ?thesis using targetsExist_result by blast
qed

lemma resume_exec_stale:
  assumes "snd (exec_checks t s) = Inr (m, False)"
  shows "resume_exec t s =
           (emit (fst (exec_checks t s) @ [LogInfo (''starting '' @ name (heap s ! t)), ActionCall t])
              (s\<lparr>manifest := m\<rparr>))\<lparr>conts := (conts s)(t := AwaitAction)\<rparr>"
  using assms by (cases "exec_checks t s") (simp add: resume_exec_def Let_def)

lemma resume_exec_fresh:
  assumes "snd (exec_checks t s) = Inr (m, True)"
  shows "resume_exec t s =
           mark_done t (emit (fst (exec_checks t s) @ [LogInfo (''--- '' @ name (heap s ! t))])
              (s\<lparr>manifest := m\<rparr>))"
  using assms by (cases "exec_checks t s") (simp add: resume_exec_def Let_def)

lemma resume_exec_error:
  assumes "snd (exec_checks t s) = Inl e"
  shows "resume_exec t s = raise e (emit (fst (exec_checks t s)) s)"
  using assms by (cases "exec_checks t s") (simp add: resume_exec_def Let_def)

lemmas ex_defs = ex_state_def ex_build_def ex_src_def ex_out_def ex_cache_def init_def task_def
  new_Task_def Task_setup_def manifest_load_def emit_def getOrInsert_def getTrackedFiles_def
  getTaskDeps_def new_Set_def

lemmas check_defs = checkFileDeps_def targetsExist_def getFileDataOrCached_def isUpToDate_def
  getFileData_def getHash_def getTimestamp_def exists_file_def tm_getFileData_def
  tm_setFileData_def ret_def

lemma checkFileDeps_no_call: "UpToDateCall t \<notin> set (fst (checkFileDeps fsys m T))"
  using checkFileDeps_file_event [of "UpToDateCall t" fsys m T] by auto

lemma targetsExist_no_call: "UpToDateCall t \<notin> set (fst (targetsExist fsys T))"
  using targetsExist_file_event [of "UpToDateCall t" fsys T] by auto

text \<open>
  Claim C5. \<open>actualUpToDate\<close> is the conjunction of the file-dependency check, the
  targets check and the predicate, in this order, and a check after a false one is not
  made: when the file-dependency check is false, everything \<open>exec\<close> does after it up to
  the decision is the three log lines; when it is true and the targets check is false,
  the predicate is not called; when both are true the result is the predicate's.
\<close>

theorem C5_short_circuit:
  "(snd (checkFileDeps (fs s) (manifest s) (heap s ! t)) = Inr (m, False) \<longrightarrow>
      exec_checks t s =
        (fst (checkFileDeps (fs s) (manifest s) (heap s ! t))
           @ [LogInfo (name (heap s ! t) @ '' checkFileDeps false''),
              LogInfo (name (heap s ! t) @ '' targetsExist false''),
              LogInfo (name (heap s ! t) @ '' uptodate false'')],
         Inr (m, False))
      \<and> UpToDateCall t \<notin> set (fst (exec_checks t s)))
   \<and> (snd (checkFileDeps (fs s) (manifest s) (heap s ! t)) = Inr (m, True)
      \<and> snd (targetsExist (fs s) (heap s ! t)) = Inr False \<longrightarrow>
      exec_checks t s =
        (fst (checkFileDeps (fs s) (manifest s) (heap s ! t))
           @ [LogInfo (name (heap s ! t) @ '' checkFileDeps true'')]
           @ fst (targetsExist (fs s) (heap s ! t))
           @ [LogInfo (name (heap s ! t) @ '' targetsExist false''),
              LogInfo (name (heap s ! t) @ '' uptodate false'')],
         Inr (m, False))
      \<and> UpToDateCall t \<notin> set (fst (exec_checks t s)))
   \<and> (snd (checkFileDeps (fs s) (manifest s) (heap s ! t)) = Inr (m, True)
      \<and> snd (targetsExist (fs s) (heap s ! t)) = Inr True
      \<and> uptodate (heap s ! t) (fs s) = Inr b \<longrightarrow>
      exec_checks t s =
        (fst (checkFileDeps (fs s) (manifest s) (heap s ! t))
           @ [LogInfo (name (heap s ! t) @ '' checkFileDeps true'')]
           @ fst (targetsExist (fs s) (heap s ! t))
           @ [LogInfo (name (heap s ! t) @ '' targetsExist true''),
              UpToDateCall t,
              LogInfo (name (heap s ! t) @ '' uptodate '' @ show_bool b)],
         Inr (m, b)))"
proof (intro conjI impI)
  assume a: "snd (checkFileDeps (fs s) (manifest s) (heap s ! t)) = Inr (m, False)"
  show "exec_checks t s =
        (fst (checkFileDeps (fs s) (manifest s) (heap s ! t))
           @ [LogInfo (name (heap s ! t) @ '' checkFileDeps false''),
              LogInfo (name (heap s ! t) @ '' targetsExist false''),
              LogInfo (name (heap s ! t) @ '' uptodate false'')],
         Inr (m, False))"
    by (rule exec_checks_fd_false [OF a])
  show "UpToDateCall t \<notin> set (fst (exec_checks t s))"
    by (simp add: exec_checks_fd_false [OF a] checkFileDeps_no_call)
next
  assume a: "snd (checkFileDeps (fs s) (manifest s) (heap s ! t)) = Inr (m, True)
      \<and> snd (targetsExist (fs s) (heap s ! t)) = Inr False"
  show "exec_checks t s =
        (fst (checkFileDeps (fs s) (manifest s) (heap s ! t))
           @ [LogInfo (name (heap s ! t) @ '' checkFileDeps true'')]
           @ fst (targetsExist (fs s) (heap s ! t))
           @ [LogInfo (name (heap s ! t) @ '' targetsExist false''),
              LogInfo (name (heap s ! t) @ '' uptodate false'')],
         Inr (m, False))"
    using a by (simp add: exec_checks_te_false)
  show "UpToDateCall t \<notin> set (fst (exec_checks t s))"
    using a by (simp add: exec_checks_te_false checkFileDeps_no_call targetsExist_no_call)
next
  assume "snd (checkFileDeps (fs s) (manifest s) (heap s ! t)) = Inr (m, True)
      \<and> snd (targetsExist (fs s) (heap s ! t)) = Inr True
      \<and> uptodate (heap s ! t) (fs s) = Inr b"
  then show "exec_checks t s =
        (fst (checkFileDeps (fs s) (manifest s) (heap s ! t))
           @ [LogInfo (name (heap s ! t) @ '' checkFileDeps true'')]
           @ fst (targetsExist (fs s) (heap s ! t))
           @ [LogInfo (name (heap s ! t) @ '' targetsExist true''),
              UpToDateCall t,
              LogInfo (name (heap s ! t) @ '' uptodate '' @ show_bool b)],
         Inr (m, b))"
    by (simp add: exec_checks_all)
qed

lemmas ex_defs2 = ex_defs ex_pred_def ex_fs1_def ex_fs2_def

theorem C5_short_circuit_witness:
  "snd (checkFileDeps (fs (ex_state (ex_build ex_pred) ex_fs1 None))
          (manifest (ex_state (ex_build ex_pred) ex_fs1 None))
          (heap (ex_state (ex_build ex_pred) ex_fs1 None) ! 0))
     = Inr ([''build'' \<mapsto> [''/src'' \<mapsto> \<lparr>hash = ''h1'', timestamp = ''t1''\<rparr>]], False)
   \<and> fst (exec_checks 0 (ex_state (ex_build ex_pred) ex_fs1 None))
     = [LogInfo ''checking exists /src'', FsExists ''/src'',
        LogInfo ''checking hash on /src'', GetHash ''/src'', Lstat ''/src'',
        SetFileData ''build'' ''/src'', LogInfo ''build checkFileDeps false'',
        LogInfo ''build targetsExist false'', LogInfo ''build uptodate false'']
   \<and> snd (checkFileDeps (fs (ex_state (ex_build ex_pred) ex_fs1 (Some ex_cache)))
          (manifest (ex_state (ex_build ex_pred) ex_fs1 (Some ex_cache)))
          (heap (ex_state (ex_build ex_pred) ex_fs1 (Some ex_cache)) ! 0))
     = Inr (ex_cache, True)
   \<and> snd (targetsExist (fs (ex_state (ex_build ex_pred) ex_fs1 (Some ex_cache)))
          (heap (ex_state (ex_build ex_pred) ex_fs1 (Some ex_cache)) ! 0)) = Inr False
   \<and> fst (exec_checks 0 (ex_state (ex_build ex_pred) ex_fs1 (Some ex_cache)))
     = [Lstat ''/src'', SetFileData ''build'' ''/src'',
        LogInfo ''build checkFileDeps true'', LogInfo ''checking exists /out'',
        FsExists ''/out'', LogInfo ''build targetsExist false'',
        LogInfo ''build uptodate false'']
   \<and> snd (targetsExist (fs (ex_state (ex_build ex_pred) ex_fs2 (Some ex_cache)))
          (heap (ex_state (ex_build ex_pred) ex_fs2 (Some ex_cache)) ! 0)) = Inr True
   \<and> uptodate (heap (ex_state (ex_build ex_pred) ex_fs2 (Some ex_cache)) ! 0)
          (fs (ex_state (ex_build ex_pred) ex_fs2 (Some ex_cache))) = Inr True
   \<and> exec_checks 0 (ex_state (ex_build ex_pred) ex_fs2 (Some ex_cache))
     = ([Lstat ''/src'', SetFileData ''build'' ''/src'',
         LogInfo ''build checkFileDeps true'', LogInfo ''checking exists /out'',
         FsExists ''/out'', LogInfo ''build targetsExist true'', UpToDateCall 0,
         LogInfo ''build uptodate true''], Inr (ex_cache, True))"
proof -
  have a: "snd (checkFileDeps (fs (ex_state (ex_build ex_pred) ex_fs1 None))
          (manifest (ex_state (ex_build ex_pred) ex_fs1 None))
          (heap (ex_state (ex_build ex_pred) ex_fs1 None) ! 0))
     = Inr ([''build'' \<mapsto> [''/src'' \<mapsto> \<lparr>hash = ''h1'', timestamp = ''t1''\<rparr>]], False)"
    by (simp add: ex_defs2 check_defs)
  have b: "checkFileDeps (fs (ex_state (ex_build ex_pred) fsys (Some ex_cache)))
          (manifest (ex_state (ex_build ex_pred) fsys (Some ex_cache)))
          (heap (ex_state (ex_build ex_pred) fsys (Some ex_cache)) ! 0)
     = ([Lstat ''/src'', SetFileData ''build'' ''/src''], Inr (ex_cache, True))"
    if "fsys ''/src'' = Some (Entry (Some ''t1'') ''x'')" for fsys
    using that by (simp add: ex_defs2 check_defs fun_upd_idem_iff)
  have b1: "snd (checkFileDeps (fs (ex_state (ex_build ex_pred) ex_fs1 (Some ex_cache)))
          (manifest (ex_state (ex_build ex_pred) ex_fs1 (Some ex_cache)))
          (heap (ex_state (ex_build ex_pred) ex_fs1 (Some ex_cache)) ! 0))
     = Inr (ex_cache, True)"
    by (subst b) (simp_all add: ex_fs1_def)
  have b2: "snd (checkFileDeps (fs (ex_state (ex_build ex_pred) ex_fs2 (Some ex_cache)))
          (manifest (ex_state (ex_build ex_pred) ex_fs2 (Some ex_cache)))
          (heap (ex_state (ex_build ex_pred) ex_fs2 (Some ex_cache)) ! 0))
     = Inr (ex_cache, True)"
    by (subst b) (simp_all add: ex_fs2_def)
  have c: "targetsExist (fs (ex_state (ex_build ex_pred) ex_fs1 (Some ex_cache)))
          (heap (ex_state (ex_build ex_pred) ex_fs1 (Some ex_cache)) ! 0)
     = ([LogInfo ''checking exists /out'', FsExists ''/out''], Inr False)"
    by (simp add: ex_defs2 check_defs)
  have d: "targetsExist (fs (ex_state (ex_build ex_pred) ex_fs2 (Some ex_cache)))
          (heap (ex_state (ex_build ex_pred) ex_fs2 (Some ex_cache)) ! 0)
     = ([LogInfo ''checking exists /out'', FsExists ''/out''], Inr True)"
    by (simp add: ex_defs2 check_defs)
  have e: "uptodate (heap (ex_state (ex_build ex_pred) ex_fs2 (Some ex_cache)) ! 0)
          (fs (ex_state (ex_build ex_pred) ex_fs2 (Some ex_cache))) = Inr True"
    by (simp add: ex_defs2)
  have n: "name (heap (ex_state (ex_build ex_pred) fsys st) ! 0) = ''build''" for fsys st
    by (simp add: ex_defs2)
  have f1: "fst (checkFileDeps (fs (ex_state (ex_build ex_pred) ex_fs1 None))
          (manifest (ex_state (ex_build ex_pred) ex_fs1 None))
          (heap (ex_state (ex_build ex_pred) ex_fs1 None) ! 0))
     = [LogInfo ''checking exists /src'', FsExists ''/src'',
        LogInfo ''checking hash on /src'', GetHash ''/src'', Lstat ''/src'',
        SetFileData ''build'' ''/src'']"
    by (simp add: ex_defs2 check_defs)
  have f2: "fst (checkFileDeps (fs (ex_state (ex_build ex_pred) ex_fs1 (Some ex_cache)))
          (manifest (ex_state (ex_build ex_pred) ex_fs1 (Some ex_cache)))
          (heap (ex_state (ex_build ex_pred) ex_fs1 (Some ex_cache)) ! 0))
     = [Lstat ''/src'', SetFileData ''build'' ''/src'']"
    by (subst b) (simp_all add: ex_fs1_def)
  have f3: "fst (checkFileDeps (fs (ex_state (ex_build ex_pred) ex_fs2 (Some ex_cache)))
          (manifest (ex_state (ex_build ex_pred) ex_fs2 (Some ex_cache)))
          (heap (ex_state (ex_build ex_pred) ex_fs2 (Some ex_cache)) ! 0))
     = [Lstat ''/src'', SetFileData ''build'' ''/src'']"
    by (subst b) (simp_all add: ex_fs2_def)
  show ?thesis
    using C5_short_circuit [of "ex_state (ex_build ex_pred) ex_fs1 None" 0
        "[''build'' \<mapsto> [''/src'' \<mapsto> \<lparr>hash = ''h1'', timestamp = ''t1''\<rparr>]]" True]
      C5_short_circuit [of "ex_state (ex_build ex_pred) ex_fs1 (Some ex_cache)" 0 ex_cache True]
      C5_short_circuit [of "ex_state (ex_build ex_pred) ex_fs2 (Some ex_cache)" 0 ex_cache True]
    by (simp add: a b1 b2 c d e n f1 f2 f3 show_bool_def)
qed

text \<open>
  Claim C6. When the file-dependency check is true and one declared target does not
  exist (and no target is unreadable, which would raise), the up-to-date check is false
  and \<open>exec\<close> goes on to call the action, without marking the task done. And whenever
  \<open>targetsExist\<close> returns, it returns true exactly when every declared target exists.
\<close>

theorem C6_missing_target:
  "(snd (checkFileDeps (fs s) (manifest s) (heap s ! t)) = Inr (m, True)
      \<and> tf \<in> set (targets (heap s ! t)) \<and> fs s (path tf) = None
      \<and> (\<forall>x\<in>set (targets (heap s ! t)). fs s (path x) \<noteq> Some Unreadable) \<longrightarrow>
        snd (targetsExist (fs s) (heap s ! t)) = Inr False
        \<and> snd (exec_checks t s) = Inr (m, False)
        \<and> conts (resume_exec t s) t = AwaitAction
        \<and> trace (resume_exec t s) =
            trace s @ fst (exec_checks t s)
              @ [LogInfo (''starting '' @ name (heap s ! t)), ActionCall t]
        \<and> doneTasks (resume_exec t s) = doneTasks s)
   \<and> (snd (targetsExist fsys T) = Inr b \<longrightarrow>
        b = (\<forall>x\<in>set (targets T). fsys (path x) \<noteq> None))"
proof (intro conjI impI)
  assume a: "snd (checkFileDeps (fs s) (manifest s) (heap s ! t)) = Inr (m, True)
      \<and> tf \<in> set (targets (heap s ! t)) \<and> fs s (path tf) = None
      \<and> (\<forall>x\<in>set (targets (heap s ! t)). fs s (path x) \<noteq> Some Unreadable)"
  then have "snd (targetsExist (fs s) (heap s ! t))
               = Inr (\<forall>x\<in>set (targets (heap s ! t)). fs s (path x) \<noteq> None)"
    by (simp add: targetsExist_total)
  with a show te: "snd (targetsExist (fs s) (heap s ! t)) = Inr False"
    by auto
  from a te show ec: "snd (exec_checks t s) = Inr (m, False)"
    by (simp add: exec_checks_te_false)
  show "conts (resume_exec t s) t = AwaitAction"
    by (simp add: resume_exec_stale [OF ec])
  show "trace (resume_exec t s) =
          trace s @ fst (exec_checks t s)
            @ [LogInfo (''starting '' @ name (heap s ! t)), ActionCall t]"
    by (simp add: resume_exec_stale [OF ec] emit_def)
  show "doneTasks (resume_exec t s) = doneTasks s"
    by (simp add: resume_exec_stale [OF ec] emit_def)
next
  assume "snd (targetsExist fsys T) = Inr b"
  then show "b = (\<forall>x\<in>set (targets T). fsys (path x) \<noteq> None)"
    by (rule targetsExist_result)
qed

lemma ex_checkFileDeps_cached:
  "fsys ''/src'' = Some (Entry (Some ''t1'') ''x'') \<Longrightarrow>
   checkFileDeps (fs (ex_state (ex_build u) fsys (Some ex_cache)))
     (manifest (ex_state (ex_build u) fsys (Some ex_cache)))
     (heap (ex_state (ex_build u) fsys (Some ex_cache)) ! 0)
   = ([Lstat ''/src'', SetFileData ''build'' ''/src''], Inr (ex_cache, True))"
  by (simp add: ex_defs2 check_defs fun_upd_idem_iff)

lemma ex_targets: "targets (heap (ex_state (ex_build u) fsys st) ! 0) = [ex_out]"
  by (simp add: ex_state_def ex_build_def init_def task_def new_Task_def Task_setup_def
        manifest_load_def emit_def)

lemma ex_name: "name (heap (ex_state (ex_build u) fsys st) ! 0) = ''build''"
  by (simp add: ex_state_def ex_build_def init_def task_def new_Task_def Task_setup_def
        manifest_load_def emit_def)

lemma ex_fs: "fs (ex_state p fsys st) = fsys"
  by (simp add: ex_state_def init_def task_def Task_setup_def manifest_load_def emit_def Let_def)

lemma ex_trace: "trace (ex_state p fsys st) = [ManifestLoad]"
  by (simp add: ex_state_def init_def task_def Task_setup_def manifest_load_def emit_def Let_def)

theorem C6_missing_target_witness:
  "snd (checkFileDeps (fs (ex_state (ex_build ex_pred) ex_fs1 (Some ex_cache)))
          (manifest (ex_state (ex_build ex_pred) ex_fs1 (Some ex_cache)))
          (heap (ex_state (ex_build ex_pred) ex_fs1 (Some ex_cache)) ! 0))
     = Inr (ex_cache, True)
   \<and> ex_out \<in> set (targets (heap (ex_state (ex_build ex_pred) ex_fs1 (Some ex_cache)) ! 0))
   \<and> fs (ex_state (ex_build ex_pred) ex_fs1 (Some ex_cache)) (path ex_out) = None
   \<and> targets (heap (ex_state (ex_build ex_pred) ex_fs1 (Some ex_cache)) ! 0) = [ex_out]
   \<and> fs (ex_state (ex_build ex_pred) ex_fs1 (Some ex_cache)) (path ex_out) \<noteq> Some Unreadable
   \<and> snd (targetsExist ex_fs1 (heap (ex_state (ex_build ex_pred) ex_fs1 (Some ex_cache)) ! 0))
     = Inr False
   \<and> conts (resume_exec 0 (ex_state (ex_build ex_pred) ex_fs1 (Some ex_cache))) 0 = AwaitAction
   \<and> trace (resume_exec 0 (ex_state (ex_build ex_pred) ex_fs1 (Some ex_cache)))
     = [ManifestLoad, Lstat ''/src'', SetFileData ''build'' ''/src'',
        LogInfo ''build checkFileDeps true'', LogInfo ''checking exists /out'',
        FsExists ''/out'', LogInfo ''build targetsExist false'',
        LogInfo ''build uptodate false'', LogInfo ''starting build'', ActionCall 0]"
proof -
  have a: "checkFileDeps (fs (ex_state (ex_build ex_pred) ex_fs1 (Some ex_cache)))
          (manifest (ex_state (ex_build ex_pred) ex_fs1 (Some ex_cache)))
          (heap (ex_state (ex_build ex_pred) ex_fs1 (Some ex_cache)) ! 0)
     = ([Lstat ''/src'', SetFileData ''build'' ''/src''], Inr (ex_cache, True))"
    by (rule ex_checkFileDeps_cached) (simp add: ex_fs1_def)
  have b: "ex_fs1 (path ex_out) = None" "ex_fs1 (path ex_out) \<noteq> Some Unreadable"
    by (simp_all add: ex_fs1_def ex_out_def)
  have c: "targetsExist ex_fs1 (heap (ex_state (ex_build ex_pred) ex_fs1 (Some ex_cache)) ! 0)
     = ([LogInfo ''checking exists /out'', FsExists ''/out''], Inr False)"
    by (simp add: targetsExist_def ex_targets exists_file_def ex_fs1_def ex_out_def ret_def)
  have d: "exec_checks 0 (ex_state (ex_build ex_pred) ex_fs1 (Some ex_cache))
     = ([Lstat ''/src'', SetFileData ''build'' ''/src'',
         LogInfo ''build checkFileDeps true'', LogInfo ''checking exists /out'',
         FsExists ''/out'', LogInfo ''build targetsExist false'',
         LogInfo ''build uptodate false''], Inr (ex_cache, False))"
    by (subst exec_checks_te_false [where m = ex_cache])
       (simp_all add: a [unfolded ex_fs] c ex_fs ex_name)
  show ?thesis
    using C6_missing_target [of "ex_state (ex_build ex_pred) ex_fs1 (Some ex_cache)" 0 ex_cache
        ex_out ex_fs1 "heap (ex_state (ex_build ex_pred) ex_fs1 (Some ex_cache)) ! 0" False]
    by (simp add: a [unfolded ex_fs] b c d ex_fs ex_targets ex_name ex_trace)
qed

text \<open>
  Claim C7. A task constructed without a predicate gets \<open>runAlways\<close>, which returns false
  whatever the file system. So for a task with this predicate, no file dependency and
  no target, whatever the manifest and the file system hold, the up-to-date check is
  false (nothing was read, three lines were logged) and \<open>exec\<close> goes on to call the
  action, without marking the task done.
\<close>

theorem C7_default_predicate:
  "(tp_uptodate p = None \<longrightarrow> uptodate (new_Task p) = runAlways)
   \<and> runAlways fsys = Inr False
   \<and> (uptodate (heap s ! t) = runAlways \<and> file_deps (heap s ! t) = []
        \<and> targets (heap s ! t) = [] \<longrightarrow>
        exec_checks t s =
          ([LogInfo (name (heap s ! t) @ '' checkFileDeps true''),
            LogInfo (name (heap s ! t) @ '' targetsExist true''),
            UpToDateCall t,
            LogInfo (name (heap s ! t) @ '' uptodate false'')], Inr (manifest s, False))
        \<and> conts (resume_exec t s) t = AwaitAction
        \<and> trace (resume_exec t s) =
            trace s @ fst (exec_checks t s)
              @ [LogInfo (''starting '' @ name (heap s ! t)), ActionCall t]
        \<and> doneTasks (resume_exec t s) = doneTasks s)"
proof (intro conjI impI)
  assume "tp_uptodate p = None"
  then show "uptodate (new_Task p) = runAlways"
    by (simp add: new_Task_def)
next
  show "runAlways fsys = Inr False"
    by (simp add: runAlways_def)
next
  assume a: "uptodate (heap s ! t) = runAlways \<and> file_deps (heap s ! t) = []
        \<and> targets (heap s ! t) = []"
  have cfd: "checkFileDeps (fs s) (manifest s) (heap s ! t) = ([], Inr (manifest s, True))"
    using a by (simp add: checkFileDeps_def ret_def)
  have te: "targetsExist (fs s) (heap s ! t) = ([], Inr True)"
    using a by (simp add: targetsExist_def ret_def)
  have up: "uptodate (heap s ! t) (fs s) = Inr False"
    using a by (simp add: runAlways_def)
  show ec: "exec_checks t s =
          ([LogInfo (name (heap s ! t) @ '' checkFileDeps true''),
            LogInfo (name (heap s ! t) @ '' targetsExist true''),
            UpToDateCall t,
            LogInfo (name (heap s ! t) @ '' uptodate false'')], Inr (manifest s, False))"
    by (subst exec_checks_all [where m = "manifest s" and b = False])
       (simp_all add: cfd te up show_bool_def)
  have ec': "snd (exec_checks t s) = Inr (manifest s, False)"
    by (simp add: ec)
  show "conts (resume_exec t s) t = AwaitAction"
    by (simp add: resume_exec_stale [OF ec'])
  show "trace (resume_exec t s) =
          trace s @ fst (exec_checks t s)
            @ [LogInfo (''starting '' @ name (heap s ! t)), ActionCall t]"
    by (simp add: resume_exec_stale [OF ec'] emit_def)
  show "doneTasks (resume_exec t s) = doneTasks s"
    by (simp add: resume_exec_stale [OF ec'] emit_def)
qed

lemmas run_defs = exec_main_def exec_call_def enter_def infer_deps_def set_add_def
  resume_exec_def action_done_def mark_done_def run_detached_def manifest_save_def raise_def
  exec_checks_def call_uptodate_def log_info_def show_bool_def runAlways_def Let_def

theorem C7_default_predicate_witness:
  "tp_uptodate ex_always = None
   \<and> uptodate (heap (exec_call 0 (ex_state ex_always ex_fs2 (Some ex_cache))) ! 0) = runAlways
   \<and> file_deps (heap (exec_call 0 (ex_state ex_always ex_fs2 (Some ex_cache))) ! 0) = []
   \<and> targets (heap (exec_call 0 (ex_state ex_always ex_fs2 (Some ex_cache))) ! 0) = []
   \<and> conts (resume_exec 0 (exec_call 0 (ex_state ex_always ex_fs2 (Some ex_cache)))) 0
       = AwaitAction
   \<and> trace (resume_exec 0 (exec_call 0 (ex_state ex_always ex_fs2 (Some ex_cache))))
       = [ManifestLoad, LogInfo ''always checkFileDeps true'',
          LogInfo ''always targetsExist true'', UpToDateCall 0,
          LogInfo ''always uptodate false'', LogInfo ''starting always'', ActionCall 0]"
proof -
  have h: "heap (exec_call 0 (ex_state ex_always ex_fs2 (Some ex_cache))) ! 0
             = (new_Task ex_always)\<lparr>taskManifest := Some ''always''\<rparr>"
    by (simp add: ex_always_def ex_defs2 run_defs)
  have t: "trace (exec_call 0 (ex_state ex_always ex_fs2 (Some ex_cache))) = [ManifestLoad]"
    by (simp add: ex_always_def ex_defs2 run_defs)
  have tp: "tp_uptodate ex_always = None"
    by (simp add: ex_always_def)
  have hu: "uptodate (heap (exec_call 0 (ex_state ex_always ex_fs2 (Some ex_cache))) ! 0)
              = runAlways"
    unfolding h by (simp add: new_Task_def ex_always_def)
  have hf: "file_deps (heap (exec_call 0 (ex_state ex_always ex_fs2 (Some ex_cache))) ! 0) = []"
    unfolding h by (simp add: new_Task_def ex_always_def getTrackedFiles_def)
  have ht: "targets (heap (exec_call 0 (ex_state ex_always ex_fs2 (Some ex_cache))) ! 0) = []"
    unfolding h by (simp add: new_Task_def ex_always_def)
  have hn: "name (heap (exec_call 0 (ex_state ex_always ex_fs2 (Some ex_cache))) ! 0)
              = ''always''"
    unfolding h by (simp add: new_Task_def ex_always_def)
  show ?thesis
    using C7_default_predicate [of ex_always ex_fs2
        "exec_call 0 (ex_state ex_always ex_fs2 (Some ex_cache))" 0]
    by (simp add: tp hu hf ht hn t)
qed

lemma fold_Task_setup_unchanged:
  "taskRegister (fold Task_setup ts s) = taskRegister s
   \<and> trace (fold Task_setup ts s) = trace s
   \<and> failure (fold Task_setup ts s) = failure s
   \<and> storage (fold Task_setup ts s) = storage s
   \<and> doneTasks (fold Task_setup ts s) = doneTasks s
   \<and> inprogressTasks (fold Task_setup ts s) = inprogressTasks s
   \<and> conts (fold Task_setup ts s) = conts s
   \<and> fs (fold Task_setup ts s) = fs s"
  by (induction ts arbitrary: s) (simp_all add: Task_setup_def Let_def)

text \<open>
  Claim C9. When the first positional argument is not \<open>list\<close> and names no registered
  task, the entry point returns whatever the schedule: it has loaded the manifest, logged
  the error and saved the manifest, in this order; no error was raised, no task was
  started, and the storage holds the manifest.
\<close>

theorem C9_unknown_task:
  "taskName \<noteq> ''list'' \<and> map_of (taskRegister s) taskName = None \<longrightarrow>
     (\<exists>s'. exec_main sched (taskName # rest) s = Some s'
        \<and> trace s' = trace s @ [ManifestLoad,
                                 LogError (''task '' @ taskName @ '' not found''),
                                 ManifestSave]
        \<and> failure s' = failure s
        \<and> storage s' = Some (manifest s')
        \<and> doneTasks s' = doneTasks s
        \<and> inprogressTasks s' = inprogressTasks s)"
proof
  assume a: "taskName \<noteq> ''list'' \<and> map_of (taskRegister s) taskName = None"
  let ?s1 = "manifest_load s"
  let ?s2 = "fold Task_setup (map snd (taskRegister ?s1)) ?s1"
  have r: "taskRegister ?s2 = taskRegister s"
    by (simp add: fold_Task_setup_unchanged) (simp add: manifest_load_def emit_def)
  have e: "exec_main sched (taskName # rest) s
             = Some (manifest_save (emit [LogError (''task '' @ taskName @ '' not found'')] ?s2))"
    using a by (simp add: exec_main_def Let_def r)
  show "\<exists>s'. exec_main sched (taskName # rest) s = Some s'
        \<and> trace s' = trace s @ [ManifestLoad,
                                 LogError (''task '' @ taskName @ '' not found''),
                                 ManifestSave]
        \<and> failure s' = failure s
        \<and> storage s' = Some (manifest s')
        \<and> doneTasks s' = doneTasks s
        \<and> inprogressTasks s' = inprogressTasks s"
    unfolding e
    by (simp add: manifest_save_def emit_def fold_Task_setup_unchanged)
       (simp add: manifest_load_def emit_def)
qed

theorem C9_unknown_task_witness:
  "''deploy'' \<noteq> ''list''
   \<and> map_of (taskRegister (snd (task (ex_build None) (init ex_fs1 None)))) ''deploy'' = None
   \<and> (\<exists>s'. exec_main [] [''deploy''] (snd (task (ex_build None) (init ex_fs1 None))) = Some s'
        \<and> trace s' = [ManifestLoad, LogError ''task deploy not found'', ManifestSave]
        \<and> failure s' = None
        \<and> storage s' = Some (manifest s'))"
  using C9_unknown_task [of "''deploy''" "snd (task (ex_build None) (init ex_fs1 None))" "[]" "[]"]
  by (auto simp: task_def init_def ex_build_def)

section \<open>Invariants of a run\<close>

lemma enter_fields [simp]:
  "doneTasks (enter d s) = doneTasks s"
  "inprogressTasks (enter d s) = insert d (inprogressTasks s)"
  "conts (enter d s) = (conts s)(d := Running)"
  "trace (enter d s) = trace s"
  "length (heap (enter d s)) = length (heap s)"
  "failure (enter d s) = failure s"
  by (simp_all add: enter_def)

lemma emit_fields [simp]:
  "doneTasks (emit es s) = doneTasks s"
  "inprogressTasks (emit es s) = inprogressTasks s"
  "conts (emit es s) = conts s"
  "trace (emit es s) = trace s @ es"
  "heap (emit es s) = heap s"
  "failure (emit es s) = failure s"
  "fs (emit es s) = fs s"
  "manifest (emit es s) = manifest s"
  "detached (emit es s) = detached s"
  by (simp_all add: emit_def)

lemma raise_fields [simp]:
  "doneTasks (raise e s) = doneTasks s"
  "inprogressTasks (raise e s) = inprogressTasks s"
  "conts (raise e s) = conts s"
  "trace (raise e s) = trace s"
  "heap (raise e s) = heap s"
  by (simp_all add: raise_def)

lemma mark_done_fields [simp]:
  "doneTasks (mark_done t s) = insert t (doneTasks s)"
  "inprogressTasks (mark_done t s) = inprogressTasks s - {t}"
  "conts (mark_done t s) = (conts s)(t := Returned)"
  "trace (mark_done t s) = trace s"
  "heap (mark_done t s) = heap s"
  by (simp_all add: mark_done_def)

subsection \<open>The synchronous prefix\<close>

lemma sets_ok_started:
  assumes "sets_ok st s" "conts s t \<noteq> NotCalled" "conts s t \<noteq> Returned"
  shows "t \<in> inprogressTasks s \<and> t \<notin> doneTasks s"
proof -
  have "t \<in> doneTasks s \<or> t \<in> inprogressTasks s"
    using assms(1,2) unfolding sets_ok_def by blast
  moreover have "t \<notin> doneTasks s"
    using assms(1,3) unfolding sets_ok_def by blast
  ultimately show ?thesis by blast
qed

lemma sets_ok_top:
  assumes "sets_ok ((t, ds, ps) # st) s"
  shows "conts s t = Running" "t \<in> inprogressTasks s" "t \<notin> doneTasks s"
    "\<forall>fr\<in>set st. fst fr \<noteq> t"
proof -
  show r: "conts s t = Running" using assms unfolding sets_ok_def by simp
  show "t \<in> inprogressTasks s" "t \<notin> doneTasks s"
    using sets_ok_started [OF assms, of t] r by simp_all
  show "\<forall>fr\<in>set st. fst fr \<noteq> t"
    using assms unfolding sets_ok_def by (auto simp: image_iff)
qed

lemma sets_ok_pop:
  assumes "sets_ok ((t, [], ps) # st) s"
  shows "sets_ok st (s\<lparr>conts := (conts s)(t := AwaitDeps ps)\<rparr>)"
  using assms sets_ok_top [OF assms] unfolding sets_ok_def by (auto simp: image_iff)

lemma sets_ok_skip:
  assumes "sets_ok ((t, d # ds, ps) # st) s"
  shows "sets_ok ((t, ds, ps') # st) s"
  using assms unfolding sets_ok_def by auto

lemma sets_ok_push:
  assumes "sets_ok ((t, d # ds, ps) # st) s" "d \<notin> doneTasks s" "d \<notin> inprogressTasks s"
  shows "sets_ok ((d, ds', []) # (t, ds, ps') # st) (emit es (enter d s))"
proof -
  have nc: "conts s d = NotCalled" using assms unfolding sets_ok_def by blast
  then have "d \<notin> fst ` set ((t, d # ds, ps) # st)"
    using assms(1) unfolding sets_ok_def by (metis cont.distinct(1))
  then show ?thesis
    using assms unfolding sets_ok_def by (auto simp: image_iff)
qed

lemma once_ok_pop:
  assumes "once_ok s" "conts s t = Running"
  shows "once_ok (s\<lparr>conts := (conts s)(t := AwaitDeps ps)\<rparr>)"
  using assms unfolding once_ok_def by auto

lemma once_ok_push:
  assumes "once_ok s" "conts s d = NotCalled"
  shows "once_ok (emit [ExecPushed t d] (enter d s))"
  using assms unfolding once_ok_def by auto

lemma deps_ok_pop:
  assumes "deps_ok ((t, [], ps) # st) s" "sets_ok ((t, [], ps) # st) s"
  shows "deps_ok st (s\<lparr>conts := (conts s)(t := AwaitDeps ps)\<rparr>)"
  using assms unfolding deps_ok_def sets_ok_def by auto

lemma deps_ok_skip:
  assumes "deps_ok ((t, d # ds, ps) # st) s"
  shows "deps_ok ((t, ds, ps) # st) s"
  using assms unfolding deps_ok_def by auto

lemma deps_ok_push:
  assumes "deps_ok ((t, d # ds, ps) # st) s" "sets_ok ((t, d # ds, ps) # st) s" "once_ok s"
    and "d \<notin> doneTasks s" "d \<notin> inprogressTasks s"
  shows "deps_ok ((d, ds', []) # (t, ds, ps @ [d]) # st) (emit [ExecPushed t d] (enter d s))"
proof -
  have nc: "conts s d = NotCalled" using assms unfolding sets_ok_def by blast
  have rt: "conts s t = Running" using assms(2) unfolding sets_ok_def by simp
  have td: "t \<noteq> d" using nc rt by auto
  have na: "ActionCall t \<notin> set (trace s)" using assms(3) rt unfolding once_ok_def by simp
  have others: "\<forall>fr\<in>set st. fst fr \<noteq> t"
    using assms(2) unfolding sets_ok_def by (auto simp: image_iff)
  show ?thesis
    using assms(1) nc rt td na others unfolding deps_ok_def
    by (auto split: if_splits)
qed

lemma inv_mid_exec_sync: "inv_mid st s \<Longrightarrow> inv_mid [] (exec_sync st s)"
proof (induction st s rule: exec_sync.induct)
  case (1 s)
  then show ?case by simp
next
  case (2 t ps st s)
  from "2.prems" have a: "sets_ok ((t, [], ps) # st) s" and b: "once_ok s"
    and c: "deps_ok ((t, [], ps) # st) s"
    unfolding inv_mid_def by simp_all
  have "inv_mid st (s\<lparr>conts := (conts s)(t := AwaitDeps ps)\<rparr>)"
    unfolding inv_mid_def
    using sets_ok_pop [OF a] once_ok_pop [OF b sets_ok_top(1) [OF a]] deps_ok_pop [OF c a]
    by simp
  then show ?case using "2.IH" by simp
next
  case (3 t d ds ps st s)
  show ?case
  proof (cases "d \<notin> doneTasks s \<and> d \<notin> inprogressTasks s \<and> d < length (heap s)")
    case True
    have nc: "conts s d = NotCalled"
      using "3.prems" True unfolding inv_mid_def sets_ok_def by blast
    from "3.prems" have a: "sets_ok ((t, d # ds, ps) # st) s" and b: "once_ok s"
      and c: "deps_ok ((t, d # ds, ps) # st) s"
      unfolding inv_mid_def by simp_all
    from True have d1: "d \<notin> doneTasks s" and d2: "d \<notin> inprogressTasks s" by simp_all
    have "inv_mid ((d, task_deps (heap (enter d s) ! d), []) # (t, ds, ps @ [d]) # st)
            (emit [ExecPushed t d] (enter d s))"
      unfolding inv_mid_def
      using sets_ok_push [OF a d1 d2] once_ok_push [OF b nc] deps_ok_push [OF c a b d1 d2]
      by simp
    then show ?thesis using "3.IH"(1) True by simp
  next
    case False
    from "3.prems" have a: "sets_ok ((t, d # ds, ps) # st) s" and b: "once_ok s"
      and c: "deps_ok ((t, d # ds, ps) # st) s"
      unfolding inv_mid_def by simp_all
    have "inv_mid ((t, ds, ps) # st) s"
      unfolding inv_mid_def
      using sets_ok_skip [OF a] b deps_ok_skip [OF c] by simp
    moreover have "exec_sync ((t, d # ds, ps) # st) s = exec_sync ((t, ds, ps) # st) s"
      using False by (subst exec_sync.simps) (simp only: if_False)
    ultimately show ?thesis using "3.IH"(2) [OF False] by simp
  qed
qed

lemma inv_mid_enter:
  assumes "inv_mid [] s" "t \<notin> doneTasks s" "t \<notin> inprogressTasks s"
  shows "inv_mid [(t, ds, [])] (enter t s)"
proof -
  have nc: "conts s t = NotCalled"
    using assms unfolding inv_mid_def sets_ok_def by blast
  have "sets_ok [(t, ds, [])] (enter t s)"
    using assms unfolding inv_mid_def sets_ok_def by auto
  moreover have "once_ok (enter t s)"
    using assms nc unfolding inv_mid_def once_ok_def by auto
  moreover have "deps_ok [(t, ds, [])] (enter t s)"
    using assms nc unfolding inv_mid_def deps_ok_def by auto
  ultimately show ?thesis unfolding inv_mid_def by simp
qed

lemma inv_mid_exec_call: "inv_mid [] s \<Longrightarrow> inv_mid [] (exec_call t s)"
  unfolding exec_call_def by (simp add: inv_mid_exec_sync inv_mid_enter)

lemma fresh_inv_mid:
  assumes "fresh s"
  shows "inv_mid [] s"
proof -
  have nc: "ActionCall t \<notin> set (trace s)" "ExecPushed t d \<notin> set (trace s)" for t d
    using assms unfolding fresh_def by auto
  have "count_list (trace s) (ActionCall t) = 0" for t
    using nc(1) by (simp add: count_list_0_iff)
  then have "once_ok s"
    unfolding once_ok_def using nc(1) by simp
  moreover have "sets_ok [] s"
    using assms unfolding fresh_def sets_ok_def by simp
  moreover have "deps_ok [] s"
    unfolding deps_ok_def using nc by simp
  ultimately show ?thesis unfolding inv_mid_def by simp
qed

subsection \<open>The segments\<close>

lemma log_info_events: "fst (log_info m) = [LogInfo m]" "snd (log_info m) = Inr ()"
  by (simp_all add: log_info_def)

lemma file_event_not_call: "file_event e \<Longrightarrow> \<not> is_call e"
  by (cases e) simp_all

lemma exec_checks_events:
  "e \<in> set (fst (exec_checks t s)) \<Longrightarrow> file_event e \<or> e = UpToDateCall t"
  unfolding exec_checks_def Let_def
  by (auto dest!: bind_io_events simp: log_info_def ret_def call_uptodate_def split: if_splits)
     (auto dest: checkFileDeps_file_event targetsExist_file_event)

lemma exec_checks_no_call: "e \<in> set (fst (exec_checks t s)) \<Longrightarrow> \<not> is_call e"
  by (auto dest!: exec_checks_events dest: file_event_not_call)

lemma getFileData_no_call: "e \<in> set (fst (getFileData fsys f)) \<Longrightarrow> \<not> is_call e"
  by (auto dest: getFileData_file_event file_event_not_call)

lemma no_call_append:
  assumes "\<forall>x\<in>set es. \<not> is_call x"
  shows "ActionCall t \<notin> set es" and "ExecPushed t d \<notin> set es"
    and "count_list es (ActionCall t) = 0"
proof -
  show a: "ActionCall t \<notin> set es" and "ExecPushed t d \<notin> set es"
    using assms by auto
  show "count_list es (ActionCall t) = 0"
    using a by (simp add: count_list_0_iff)
qed

lemma inv_mid_same:
  assumes "inv_mid st s"
    and "doneTasks s' = doneTasks s" "inprogressTasks s' = inprogressTasks s"
    and "conts s' = conts s" "trace s' = trace s @ es" "\<forall>x\<in>set es. \<not> is_call x"
  shows "inv_mid st s'"
proof -
  have "sets_ok st s'"
    using assms(1-4) unfolding inv_mid_def sets_ok_def by simp
  moreover have "once_ok s'"
    using assms(1) unfolding inv_mid_def once_ok_def
    by (simp add: assms(4,5) no_call_append [OF assms(6)])
  moreover have "deps_ok st s'"
    using assms(1) unfolding inv_mid_def deps_ok_def
    by (simp add: assms(2,4,5) no_call_append [OF assms(6)])
  ultimately show ?thesis unfolding inv_mid_def by simp
qed

lemma inv_mid_call_action:
  assumes "inv_mid [] s" "conts s t = AwaitDeps ps" "\<forall>d\<in>set ps. conts s d = Returned"
    and "doneTasks s' = doneTasks s" "inprogressTasks s' = inprogressTasks s"
    and "conts s' = (conts s)(t := AwaitAction)"
    and "trace s' = trace s @ es @ [ActionCall t]" "\<forall>x\<in>set es. \<not> is_call x"
  shows "inv_mid [] s'"
proof -
  from assms(1) have a: "sets_ok [] s" and b: "once_ok s" and c: "deps_ok [] s"
    unfolding inv_mid_def by simp_all
  have tr: "trace s' = (trace s @ es) @ [ActionCall t]" using assms(7) by simp
  have nc: "ActionCall t \<notin> set (trace s)"
    using b assms(2) unfolding once_ok_def by simp
  have st: "t \<in> inprogressTasks s" "t \<notin> doneTasks s"
    using sets_ok_started [OF a, of t] assms(2) by simp_all
  have pd: "set ps \<subseteq> doneTasks s"
    using a assms(3) unfolding sets_ok_def by auto
  have "sets_ok [] s'"
    using a st unfolding sets_ok_def by (auto simp: assms(4,5,6))
  moreover have "once_ok s'"
    using b nc unfolding once_ok_def
    by (auto simp: assms(6) assms(7) no_call_append [OF assms(8)] count_list_0_iff)
  moreover have "deps_ok [] s'"
    using c assms(2) pd unfolding deps_ok_def
    by (auto simp: assms(4,6,7) no_call_append [OF assms(8)])
  ultimately show ?thesis unfolding inv_mid_def by simp
qed

lemma inv_mid_await_after:
  assumes "inv_mid [] s" "conts s t = AwaitAction"
    and "doneTasks s' = doneTasks s" "inprogressTasks s' = inprogressTasks s"
    and "conts s' = (conts s)(t := AwaitAfterAction)"
    and "trace s' = trace s @ es" "\<forall>x\<in>set es. \<not> is_call x"
  shows "inv_mid [] s'"
proof -
  from assms(1) have a: "sets_ok [] s" and b: "once_ok s" and c: "deps_ok [] s"
    unfolding inv_mid_def by simp_all
  have st: "t \<in> inprogressTasks s" "t \<notin> doneTasks s"
    using sets_ok_started [OF a, of t] assms(2) by simp_all
  have "sets_ok [] s'"
    using a st unfolding sets_ok_def by (auto simp: assms(3,4,5))
  moreover have "once_ok s'"
    using b unfolding once_ok_def
    by (auto simp: assms(5,6) no_call_append [OF assms(7)])
  moreover have "deps_ok [] s'"
    using c assms(2) unfolding deps_ok_def
    by (auto simp: assms(3,5,6) no_call_append [OF assms(7)])
  ultimately show ?thesis unfolding inv_mid_def by simp
qed

lemma inv_mid_mark_done:
  assumes "inv_mid [] s" "conts s t \<noteq> NotCalled" "conts s t \<noteq> Returned"
    and "doneTasks s' = insert t (doneTasks s)" "inprogressTasks s' = inprogressTasks s - {t}"
    and "conts s' = (conts s)(t := Returned)"
    and "trace s' = trace s @ es" "\<forall>x\<in>set es. \<not> is_call x"
  shows "inv_mid [] s'"
proof -
  from assms(1) have a: "sets_ok [] s" and b: "once_ok s" and c: "deps_ok [] s"
    unfolding inv_mid_def by simp_all
  have st: "t \<in> inprogressTasks s" "t \<notin> doneTasks s"
    using sets_ok_started [OF a assms(2,3)] by simp_all
  have "sets_ok [] s'"
    using a st unfolding sets_ok_def by (auto simp: assms(4,5,6))
  moreover have "once_ok s'"
    using b unfolding once_ok_def
    by (auto simp: assms(6,7) no_call_append [OF assms(8)])
  moreover have "deps_ok [] s'"
    using c assms(2,3) unfolding deps_ok_def
    by (auto simp: assms(4,6,7) no_call_append [OF assms(8)])
  ultimately show ?thesis unfolding inv_mid_def by simp
qed

lemma inv_mid_resume:
  assumes "inv_mid [] s" "conts s t = AwaitDeps ps" "\<forall>d\<in>set ps. conts s d = Returned"
  shows "inv_mid [] (resume_exec t s)"
proof (cases "snd (exec_checks t s)")
  case (Inl e)
  show ?thesis
    unfolding resume_exec_error [OF Inl]
    by (rule inv_mid_same [OF assms(1), where es = "fst (exec_checks t s)"])
       (simp_all add: exec_checks_no_call)
next
  case (Inr r)
  obtain m b where r: "r = (m, b)" by (cases r)
  show ?thesis
  proof (cases b)
    case True
    have ec: "snd (exec_checks t s) = Inr (m, True)" using Inr r True by simp
    show ?thesis
      unfolding resume_exec_fresh [OF ec]
      by (rule inv_mid_mark_done [OF assms(1), where t = t
            and es = "fst (exec_checks t s) @ [LogInfo (''--- '' @ name (heap s ! t))]"])
         (auto simp: assms(2) dest: exec_checks_no_call)
  next
    case False
    have ec: "snd (exec_checks t s) = Inr (m, False)" using Inr r False by simp
    show ?thesis
      unfolding resume_exec_stale [OF ec]
      by (rule inv_mid_call_action [OF assms(1,2,3), where
            es = "fst (exec_checks t s) @ [LogInfo (''starting '' @ name (heap s ! t))]"])
         (auto dest: exec_checks_no_call)
  qed
qed

lemma inv_mid_action_done:
  assumes "inv_mid [] s" "conts s t = AwaitAction"
  shows "inv_mid [] (action_done t s)"
proof (cases "action (heap s ! t) (fs s)")
  case (Inl e)
  show ?thesis
    by (rule inv_mid_same [OF assms(1), where es = "[]"])
       (simp_all add: action_done_def Let_def Inl)
next
  case (Inr f)
  show ?thesis
    by (rule inv_mid_await_after [OF assms(1,2), where
          es = "[ActionReturn t, LogInfo (''completed '' @ name (heap s ! t))]"])
       (simp_all add: action_done_def Let_def Inr)
qed

lemma inv_mid_finish:
  assumes "inv_mid [] s" "conts s t = AwaitAfterAction"
  shows "inv_mid [] (mark_done t s)"
  by (rule inv_mid_mark_done [OF assms(1), where t = t and es = "[]"])
     (simp_all add: assms(2))

lemma run_detached_shape:
  "\<exists>es. (\<forall>x\<in>set es. \<not> is_call x)
     \<and> doneTasks (run_detached k s) = doneTasks s
     \<and> inprogressTasks (run_detached k s) = inprogressTasks s
     \<and> conts (run_detached k s) = conts s
     \<and> trace (run_detached k s) = trace s @ es"
proof -
  obtain es r where g: "getFileData (fs s) (snd (detached s ! k)) = (es, r)"
    by (cases "getFileData (fs s) (snd (detached s ! k))")
  have nc: "\<forall>x\<in>set es. \<not> is_call x"
    using getFileData_no_call [of _ "fs s" "snd (detached s ! k)"] g by auto
  show ?thesis
  proof (cases r)
    case (Inl e)
    show ?thesis
      by (rule exI [where x = es]) (simp add: run_detached_def Let_def g Inl nc)
  next
    case (Inr x)
    show ?thesis
    proof (cases "taskManifest (heap s ! fst (detached s ! k))")
      case None
      show ?thesis
        by (rule exI [where x = es]) (simp add: run_detached_def Let_def g Inr None nc)
    next
      case (Some n)
      show ?thesis
        by (rule exI [where x = "es @ [SetFileData n (path (snd (detached s ! k)))]"])
           (simp add: run_detached_def Let_def g Inr Some nc)
    qed
  qed
qed

lemma inv_mid_detached:
  assumes "inv_mid [] s"
  shows "inv_mid [] (run_detached k s)"
proof -
  obtain es where "\<forall>x\<in>set es. \<not> is_call x"
     "doneTasks (run_detached k s) = doneTasks s"
     "inprogressTasks (run_detached k s) = inprogressTasks s"
     "conts (run_detached k s) = conts s"
     "trace (run_detached k s) = trace s @ es"
    using run_detached_shape by blast
  then show ?thesis
    using inv_mid_same [OF assms] by blast
qed

lemma inv_mid_step:
  assumes "inv_mid [] s" "step l s = Some s'"
  shows "inv_mid [] s'"
proof (cases l)
  case (Resume t)
  with assms(2) obtain ps where "conts s t = AwaitDeps ps"
    "\<forall>d\<in>set ps. conts s d = Returned" "s' = resume_exec t s"
    by (auto simp: list_all_iff split: cont.splits if_splits)
  then show ?thesis using inv_mid_resume [OF assms(1)] by simp
next
  case (ActionDone t)
  with assms(2) have "conts s t = AwaitAction" "s' = action_done t s"
    by (auto split: if_splits)
  then show ?thesis using inv_mid_action_done [OF assms(1)] by simp
next
  case (Finish t)
  with assms(2) have "conts s t = AwaitAfterAction" "s' = mark_done t s"
    by (auto split: if_splits)
  then show ?thesis using inv_mid_finish [OF assms(1)] by simp
next
  case (Detached k)
  with assms(2) have "s' = run_detached k s"
    by (auto split: if_splits)
  then show ?thesis using inv_mid_detached [OF assms(1)] by simp
qed

lemma inv_mid_run: "inv_mid [] s \<Longrightarrow> run ls s = Some s' \<Longrightarrow> inv_mid [] s'"
proof (induction ls arbitrary: s)
  case Nil
  then show ?case by simp
next
  case (Cons l ls)
  from Cons.prems(2) obtain s1 where s1: "step l s = Some s1" and r: "run ls s1 = Some s'"
    by (auto split: option.splits)
  show ?case using Cons.IH [OF inv_mid_step [OF Cons.prems(1) s1] r] .
qed

lemma inv_mid_reachable:
  assumes "fresh s0" "run sched (exec_call r s0) = Some s"
  shows "inv_mid [] s"
  using inv_mid_run [OF inv_mid_exec_call [OF fresh_inv_mid [OF assms(1)]] assms(2)] .

subsection \<open>The two sets only grow\<close>

lemma exec_sync_mono:
  "doneTasks (exec_sync st s) = doneTasks s
   \<and> inprogressTasks s \<subseteq> inprogressTasks (exec_sync st s)"
proof (induction st s rule: exec_sync.induct)
  case (1 s)
  show ?case by simp
next
  case (2 t ps st s)
  then show ?case by simp
next
  case (3 t d ds ps st s)
  show ?case
  proof (cases "d \<notin> doneTasks s \<and> d \<notin> inprogressTasks s \<and> d < length (heap s)")
    case True
    then show ?thesis using "3.IH"(1) [OF True] by auto
  next
    case False
    have "exec_sync ((t, d # ds, ps) # st) s = exec_sync ((t, ds, ps) # st) s"
      using False by (subst exec_sync.simps) (simp only: if_False)
    then show ?thesis using "3.IH"(2) [OF False] by simp
  qed
qed

lemma exec_call_mono:
  "doneTasks (exec_call t s) = doneTasks s
   \<and> inprogressTasks s \<subseteq> inprogressTasks (exec_call t s)"
  unfolding exec_call_def using exec_sync_mono [of "[(t, task_deps (heap (enter t s) ! t), [])]" "enter t s"]
  by auto

lemma resume_exec_mono:
  "doneTasks s \<subseteq> doneTasks (resume_exec t s)
   \<and> doneTasks s \<union> inprogressTasks s
       \<subseteq> doneTasks (resume_exec t s) \<union> inprogressTasks (resume_exec t s)"
proof (cases "snd (exec_checks t s)")
  case (Inl e)
  show ?thesis unfolding resume_exec_error [OF Inl] by simp
next
  case (Inr r)
  obtain m b where r: "r = (m, b)" by (cases r)
  show ?thesis
  proof (cases b)
    case True
    have ec: "snd (exec_checks t s) = Inr (m, True)" using Inr r True by simp
    show ?thesis unfolding resume_exec_fresh [OF ec] by auto
  next
    case False
    have ec: "snd (exec_checks t s) = Inr (m, False)" using Inr r False by simp
    show ?thesis unfolding resume_exec_stale [OF ec] by simp
  qed
qed

lemma step_mono:
  assumes "step l s = Some s'"
  shows "doneTasks s \<subseteq> doneTasks s'
         \<and> doneTasks s \<union> inprogressTasks s \<subseteq> doneTasks s' \<union> inprogressTasks s'"
proof (cases l)
  case (Resume t)
  with assms have "s' = resume_exec t s"
    by (auto split: cont.splits if_splits)
  then show ?thesis using resume_exec_mono by simp
next
  case (ActionDone t)
  with assms have "s' = action_done t s" by (auto split: if_splits)
  then show ?thesis
    by (cases "action (heap s ! t) (fs s)") (simp_all add: action_done_def Let_def)
next
  case (Finish t)
  with assms have "s' = mark_done t s" by (auto split: if_splits)
  then show ?thesis by auto
next
  case (Detached k)
  with assms have "s' = run_detached k s" by (auto split: if_splits)
  then show ?thesis using run_detached_shape [of k s] by auto
qed

lemma run_mono:
  "run ls s = Some s' \<Longrightarrow>
     doneTasks s \<subseteq> doneTasks s'
     \<and> doneTasks s \<union> inprogressTasks s \<subseteq> doneTasks s' \<union> inprogressTasks s'"
proof (induction ls arbitrary: s)
  case Nil
  then show ?case by simp
next
  case (Cons l ls)
  from Cons.prems obtain s1 where s1: "step l s = Some s1" and r: "run ls s1 = Some s'"
    by (auto split: option.splits)
  show ?case using step_mono [OF s1] Cons.IH [OF r] by blast
qed

subsection \<open>Fresh states\<close>

lemma fresh_init: "fresh (init f st)"
  by (simp add: fresh_def init_def)

lemma fresh_task: "fresh s \<Longrightarrow> fresh (snd (task p s))"
  by (simp add: fresh_def task_def Let_def)

lemma fresh_manifest_load: "fresh s \<Longrightarrow> fresh (manifest_load s)"
  by (simp add: fresh_def manifest_load_def emit_def)

lemma fresh_Task_setup: "fresh s \<Longrightarrow> fresh (Task_setup t s)"
  by (simp add: fresh_def Task_setup_def Let_def)

lemma fresh_fold_Task_setup: "fresh s \<Longrightarrow> fresh (fold Task_setup ts s)"
  by (induction ts arbitrary: s) (simp_all add: fresh_Task_setup)

subsection \<open>The process with three tasks\<close>

lemmas ex3_defs = ex_ready_def ex_proc_def ex_all_def ex_use_def ex_gen_def ex_gen_file_def
  ex_digest_def filehash_def

lemmas ex3_eval = ex3_defs ex_defs run_defs check_defs ex_full_def

lemma ex_ready_fresh: "fresh ex_ready"
  unfolding ex_ready_def ex_proc_def
  by (intro fresh_fold_Task_setup fresh_manifest_load fresh_task fresh_init)

lemma ex_race_mid_run:
  "run [Resume 0, Resume 1, ActionDone 1] (exec_call 2 ex_ready) = Some ex_race_mid"
proof -
  have "run [Resume 0, Resume 1, ActionDone 1] (exec_call 2 ex_ready) \<noteq> None"
    by (simp add: ex3_eval)
  then show ?thesis by (simp add: ex_race_mid_def)
qed

lemma ex_race_end_run:
  "run [Finish 1, ActionDone 0, Finish 0, Resume 2, ActionDone 2, Finish 2] ex_race_mid
     = Some ex_race_end"
proof -
  have "run [Finish 1, ActionDone 0, Finish 0, Resume 2, ActionDone 2, Finish 2] ex_race_mid
          \<noteq> None"
    by (simp add: ex_race_mid_def ex3_eval)
  then show ?thesis by (simp add: ex_race_end_def)
qed


lemma ex_chain_run:
  "run [Resume 0, ActionDone 0, Finish 0, Resume 1, ActionDone 1] (exec_call 1 ex_ready)
     = Some ex_chain"
proof -
  have "run [Resume 0, ActionDone 0, Finish 0, Resume 1, ActionDone 1] (exec_call 1 ex_ready)
          \<noteq> None"
    by (simp add: ex3_eval)
  then show ?thesis by (simp add: ex_chain_def)
qed


lemma ex_race_end_sets:
  "doneTasks ex_race_end = {0, 1, 2}" "inprogressTasks ex_race_end = {}"
  by (auto simp: ex_race_end_def ex_race_mid_def ex3_eval)

section \<open>Run once, and the two sets\<close>



text \<open>
  Claim C8. After any schedule, from a process where no task had been started, the done
  set and the in-progress set are disjoint. Along any schedule, from any state, and
  across any call of \<open>exec\<close>, the done set only grows and so does the union of the two.
\<close>

theorem C8_sets:
  "(fresh s0 \<and> run sched (exec_call r s0) = Some s1 \<longrightarrow>
      doneTasks s1 \<inter> inprogressTasks s1 = {})
   \<and> (run sched' s = Some s' \<longrightarrow>
      doneTasks s \<subseteq> doneTasks s'
      \<and> doneTasks s \<union> inprogressTasks s \<subseteq> doneTasks s' \<union> inprogressTasks s')
   \<and> doneTasks s \<subseteq> doneTasks (exec_call t s)
   \<and> doneTasks s \<union> inprogressTasks s
        \<subseteq> doneTasks (exec_call t s) \<union> inprogressTasks (exec_call t s)"
proof (intro conjI impI)
  assume "fresh s0 \<and> run sched (exec_call r s0) = Some s1"
  then have "inv_mid [] s1" using inv_mid_reachable by blast
  then show "doneTasks s1 \<inter> inprogressTasks s1 = {}"
    unfolding inv_mid_def sets_ok_def by blast
next
  assume a: "run sched' s = Some s'"
  show "doneTasks s \<subseteq> doneTasks s'" using run_mono [OF a] by blast
  show "doneTasks s \<union> inprogressTasks s \<subseteq> doneTasks s' \<union> inprogressTasks s'"
    using run_mono [OF a] by blast
next
  show "doneTasks s \<subseteq> doneTasks (exec_call t s)"
    using exec_call_mono [of t s] by simp
  show "doneTasks s \<union> inprogressTasks s
          \<subseteq> doneTasks (exec_call t s) \<union> inprogressTasks (exec_call t s)"
    using exec_call_mono [of t s] by auto
qed

theorem C8_sets_witness:
  "fresh ex_ready
   \<and> run [Resume 0, Resume 1, ActionDone 1] (exec_call 2 ex_ready) = Some ex_race_mid
   \<and> run [Finish 1, ActionDone 0, Finish 0, Resume 2, ActionDone 2, Finish 2] ex_race_mid
        = Some ex_race_end
   \<and> doneTasks ex_race_mid = {} \<and> inprogressTasks ex_race_mid = {0, 1, 2}
   \<and> doneTasks ex_race_end = {0, 1, 2} \<and> inprogressTasks ex_race_end = {}
   \<and> doneTasks ex_race_mid \<inter> inprogressTasks ex_race_mid = {}
   \<and> doneTasks ex_race_mid \<subseteq> doneTasks ex_race_end
   \<and> doneTasks ex_race_mid \<union> inprogressTasks ex_race_mid
        \<subseteq> doneTasks ex_race_end \<union> inprogressTasks ex_race_end"
proof -
  have m: "doneTasks ex_race_mid = {}" "inprogressTasks ex_race_mid = {0, 1, 2}"
    by (auto simp: ex_race_mid_def ex3_eval)
  note c8 = C8_sets [of ex_ready "[Resume 0, Resume 1, ActionDone 1]" 2 ex_race_mid
        "[Finish 1, ActionDone 0, Finish 0, Resume 2, ActionDone 2, Finish 2]"
        ex_race_mid ex_race_end 0]
  have d: "doneTasks ex_race_mid \<inter> inprogressTasks ex_race_mid = {}"
    using c8 ex_ready_fresh ex_race_mid_run by blast
  have e1: "doneTasks ex_race_mid \<subseteq> doneTasks ex_race_end"
    using c8 ex_race_end_run by blast
  have e2: "doneTasks ex_race_mid \<union> inprogressTasks ex_race_mid
              \<subseteq> doneTasks ex_race_end \<union> inprogressTasks ex_race_end"
    using c8 ex_race_end_run by blast
  show ?thesis
    by (intro conjI ex_ready_fresh ex_race_mid_run ex_race_end_run m ex_race_end_sets d e1 e2)
qed

section \<open>Dependencies and dependents\<close>

lemma infer_deps_set:
  "set (infer_deps reg fds deps) = set deps \<union> {t. \<exists>fd\<in>set fds. reg (path fd) = Some t}"
  unfolding infer_deps_def
proof (induction fds arbitrary: deps)
  case Nil
  show ?case by simp
next
  case (Cons fd fds)
  show ?case
    by (cases "reg (path fd)") (auto simp: Cons.IH set_add_def)
qed

lemma enter_task_deps:
  assumes "t < length (heap s)"
  shows "task_deps (heap (enter t s) ! t)
           = infer_deps (targetRegister s) (file_deps (heap s ! t)) (task_deps (heap s ! t))"
  using assms by (simp add: enter_def)

lemma exec_sync_trace: "set (trace s) \<subseteq> set (trace (exec_sync st s))"
proof (induction st s rule: exec_sync.induct)
  case (1 s)
  show ?case by simp
next
  case (2 t ps st s)
  then show ?case by simp
next
  case (3 t d ds ps st s)
  show ?case
  proof (cases "d \<notin> doneTasks s \<and> d \<notin> inprogressTasks s \<and> d < length (heap s)")
    case True
    then show ?thesis using "3.IH"(1) [OF True] by auto
  next
    case False
    have "exec_sync ((t, d # ds, ps) # st) s = exec_sync ((t, ds, ps) # st) s"
      using False by (subst exec_sync.simps) (simp only: if_False)
    then show ?thesis using "3.IH"(2) [OF False] by simp
  qed
qed

lemma exec_sync_pushes:
  assumes "d \<notin> doneTasks s" "d \<notin> inprogressTasks s" "d < length (heap s)"
  shows "ExecPushed t d \<in> set (trace (exec_sync ((t, d # ds, ps) # st) s))"
proof -
  have "exec_sync ((t, d # ds, ps) # st) s
          = exec_sync ((d, task_deps (heap (enter d s) ! d), []) # (t, ds, ps @ [d]) # st)
              (emit [ExecPushed t d] (enter d s))"
    using assms by simp
  moreover have "ExecPushed t d \<in> set (trace (emit [ExecPushed t d] (enter d s)))"
    by simp
  ultimately show ?thesis using exec_sync_trace by fastforce
qed

text \<open>
  Claim C4, as the code has it. When task \<open>T\<close> lists as a file dependency a file that
  \<open>targetRegister\<close> knows as a target of \<open>D\<close>, entering \<open>exec\<close> on \<open>T\<close> makes \<open>D\<close> a task
  dependency of \<open>T\<close>. When the loop of \<open>T\<close> reaches a dependency \<open>D\<close> that is neither done
  nor in progress, it calls \<open>exec\<close> on \<open>D\<close> and pushes the promise. And in every state a
  run reaches from a process where no task had been started: if \<open>T\<close> pushed the promise
  of \<open>D\<close> and the action of \<open>T\<close> has been called, then \<open>D\<close> is done. A \<open>D\<close> that is done
  stays done along any schedule. Nothing is said of a dependency that was in progress
  when the loop of \<open>T\<close> reached it.
\<close>

theorem C4_pushed_deps_done:
  "(T < length (heap s) \<and> fd \<in> set (file_deps (heap s ! T))
      \<and> targetRegister s (path fd) = Some D \<longrightarrow>
      D \<in> set (task_deps (heap (enter T s) ! T)))
   \<and> (D \<notin> doneTasks s \<and> D \<notin> inprogressTasks s \<and> D < length (heap s) \<longrightarrow>
      ExecPushed T D \<in> set (trace (exec_sync ((T, D # ds, ps) # st) s)))
   \<and> (fresh s0 \<and> run sched (exec_call r s0) = Some s1
      \<and> ExecPushed T D \<in> set (trace s1) \<and> ActionCall T \<in> set (trace s1) \<longrightarrow>
      D \<in> doneTasks s1)
   \<and> (run sched' s2 = Some s3 \<and> D \<in> doneTasks s2 \<longrightarrow> D \<in> doneTasks s3)"
proof (intro conjI impI)
  assume "T < length (heap s) \<and> fd \<in> set (file_deps (heap s ! T))
      \<and> targetRegister s (path fd) = Some D"
  then show "D \<in> set (task_deps (heap (enter T s) ! T))"
    by (auto simp: enter_task_deps infer_deps_set)
next
  assume "D \<notin> doneTasks s \<and> D \<notin> inprogressTasks s \<and> D < length (heap s)"
  then show "ExecPushed T D \<in> set (trace (exec_sync ((T, D # ds, ps) # st) s))"
    using exec_sync_pushes by blast
next
  assume a: "fresh s0 \<and> run sched (exec_call r s0) = Some s1
      \<and> ExecPushed T D \<in> set (trace s1) \<and> ActionCall T \<in> set (trace s1)"
  then have "inv_mid [] s1" using inv_mid_reachable by blast
  then show "D \<in> doneTasks s1"
    using a unfolding inv_mid_def deps_ok_def by blast
next
  assume "run sched' s2 = Some s3 \<and> D \<in> doneTasks s2"
  then show "D \<in> doneTasks s3"
    using run_mono [of sched' s2 s3] by blast
qed

text \<open>
  An instance: the entry task is \<open>use\<close>. Entering it adds \<open>gen\<close>, the producer of its file
  dependency, to its task dependencies; its loop finds \<open>gen\<close> not started and pushes its
  promise; \<open>use\<close> goes on only when \<open>gen\<close> is done, and copies the new content.
\<close>

theorem C4_pushed_deps_done_witness:
  "1 < length (heap ex_ready) \<and> ex_gen_file \<in> set (file_deps (heap ex_ready ! 1))
   \<and> targetRegister ex_ready (path ex_gen_file) = Some 0
   \<and> 0 \<in> set (task_deps (heap (enter 1 ex_ready) ! 1))
   \<and> 0 \<notin> doneTasks (enter 1 ex_ready) \<and> 0 \<notin> inprogressTasks (enter 1 ex_ready)
   \<and> 0 < length (heap (enter 1 ex_ready))
   \<and> ExecPushed 1 0 \<in> set (trace (exec_sync [(1, [0], [])] (enter 1 ex_ready)))
   \<and> fresh ex_ready
   \<and> run [Resume 0, ActionDone 0, Finish 0, Resume 1, ActionDone 1] (exec_call 1 ex_ready)
        = Some ex_chain
   \<and> ExecPushed 1 0 \<in> set (trace ex_chain) \<and> ActionCall 1 \<in> set (trace ex_chain)
   \<and> 0 \<in> doneTasks ex_chain
   \<and> fs ex_chain ''/copy'' = Some (Entry (Some ''t2'') ''new'')
   \<and> run [Finish 1] ex_chain = Some (mark_done 1 ex_chain)
   \<and> 0 \<in> doneTasks (mark_done 1 ex_chain)"
proof -
  have a: "1 < length (heap ex_ready)" "ex_gen_file \<in> set (file_deps (heap ex_ready ! 1))"
    "targetRegister ex_ready (path ex_gen_file) = Some 0"
    by (simp_all add: ex3_eval)
  have b: "0 \<notin> doneTasks (enter 1 ex_ready)" "0 \<notin> inprogressTasks (enter 1 ex_ready)"
    "0 < length (heap (enter 1 ex_ready))"
    by (simp_all add: ex3_eval)
  have c: "ExecPushed 1 0 \<in> set (trace ex_chain)" "ActionCall 1 \<in> set (trace ex_chain)"
    by (simp_all add: ex_chain_def ex3_eval)
  have d: "fs ex_chain ''/copy'' = Some (Entry (Some ''t2'') ''new'')"
    by (simp add: ex_chain_def ex3_eval)
  have h: "run [Finish 1] ex_chain = Some (mark_done 1 ex_chain)"
    by (simp add: ex_chain_def ex3_eval)
  note c4a = C4_pushed_deps_done [of 1 ex_ready ex_gen_file 0 "[]" "[]" "[]" ex_ready
      "[Resume 0, ActionDone 0, Finish 0, Resume 1, ActionDone 1]" 1 ex_chain
      "[Finish 1]" ex_chain "mark_done 1 ex_chain"]
  note c4b = C4_pushed_deps_done [of 1 "enter 1 ex_ready" ex_gen_file 0 "[]" "[]" "[]" ex_ready
      "[Resume 0, ActionDone 0, Finish 0, Resume 1, ActionDone 1]" 1 ex_chain
      "[Finish 1]" ex_chain "mark_done 1 ex_chain"]
  have e: "0 \<in> set (task_deps (heap (enter 1 ex_ready) ! 1))"
    using c4a a by blast
  have f: "ExecPushed 1 0 \<in> set (trace (exec_sync [(1, [0], [])] (enter 1 ex_ready)))"
    using c4b b by blast
  have g: "0 \<in> doneTasks ex_chain"
    using c4a ex_ready_fresh ex_chain_run c by blast
  have i: "0 \<in> doneTasks (mark_done 1 ex_chain)"
    using c4a h g by blast
  show ?thesis
    by (intro conjI a b c d e f g h i ex_ready_fresh ex_chain_run)
qed

text \<open>
  Claim C4 as it is stated fails. The entry task is \<open>all\<close>, whose loop starts \<open>gen\<close> and
  then \<open>use\<close>. \<open>use\<close> has \<open>gen\<close> among its task dependencies, because \<open>gen\<close> declares the
  target \<open>/gen\<close> that \<open>use\<close> lists as a file dependency; but \<open>gen\<close> is in progress when
  the loop of \<open>use\<close> reaches it, so \<open>use\<close> awaits nothing. Here the action of \<open>use\<close>
  returns while \<open>gen\<close> is not done and its action has not returned: \<open>use\<close> has copied
  the old content of \<open>/gen\<close>, and at the end of the run \<open>/gen\<close> holds the new content and
  \<open>/copy\<close> the old one.
\<close>

theorem C4_in_progress_counterexample:
  "run [Resume 0, Resume 1, ActionDone 1] (exec_call 2 ex_ready) = Some ex_race_mid
   \<and> targetRegister ex_race_mid ''/gen'' = Some 0
   \<and> map path (targets (heap ex_race_mid ! 0)) = [''/gen'']
   \<and> map path (file_deps (heap ex_race_mid ! 1)) = [''/gen'']
   \<and> task_deps (heap ex_race_mid ! 1) = [0]
   \<and> ActionReturn 1 \<in> set (trace ex_race_mid)
   \<and> ActionReturn 0 \<notin> set (trace ex_race_mid)
   \<and> 0 \<notin> doneTasks ex_race_mid
   \<and> fs ex_race_mid ''/copy'' = Some (Entry (Some ''t1'') ''old'')
   \<and> run [Finish 1, ActionDone 0, Finish 0, Resume 2, ActionDone 2, Finish 2] ex_race_mid
        = Some ex_race_end
   \<and> doneTasks ex_race_end = {0, 1, 2}
   \<and> fs ex_race_end ''/gen'' = Some (Entry (Some ''t2'') ''new'')
   \<and> fs ex_race_end ''/copy'' = Some (Entry (Some ''t1'') ''old'')"
proof -
  have a: "targetRegister ex_race_mid ''/gen'' = Some 0"
    "map path (targets (heap ex_race_mid ! 0)) = [''/gen'']"
    "map path (file_deps (heap ex_race_mid ! 1)) = [''/gen'']"
    "task_deps (heap ex_race_mid ! 1) = [0]"
    by (simp_all add: ex_race_mid_def ex3_eval)
  have b: "ActionReturn 1 \<in> set (trace ex_race_mid)"
    "ActionReturn 0 \<notin> set (trace ex_race_mid)"
    "0 \<notin> doneTasks ex_race_mid"
    "fs ex_race_mid ''/copy'' = Some (Entry (Some ''t1'') ''old'')"
    by (simp_all add: ex_race_mid_def ex3_eval)
  have c: "fs ex_race_end ''/gen'' = Some (Entry (Some ''t2'') ''new'')"
    "fs ex_race_end ''/copy'' = Some (Entry (Some ''t1'') ''old'')"
    by (simp_all add: ex_race_end_def ex_race_mid_def ex3_eval)
  show ?thesis
    by (intro conjI a b c ex_race_mid_run ex_race_end_run ex_race_end_sets(1))
qed

section \<open>The snapshot after the action\<close>

lemmas ex_fmt_eval = ex_fmt_proc_def ex_fmt_def ex_a_def ex_digest_def filehash_def
  ex_defs run_defs check_defs

text \<open>
  Claim C1 on this process: the run is over, \<open>fmt\<close> is done and the manifest is saved,
  while the snapshot of \<open>/a\<close> started after the action is still pending; the manifest,
  in memory and in storage, holds the snapshot taken before the action, not the one the
  file has now.
\<close>

theorem C1_snapshot_not_awaited:
  "exec_main [Resume 0, ActionDone 0, Finish 0] [''fmt''] ex_fmt_proc = Some ex_fmt_end
   \<and> 0 \<in> doneTasks ex_fmt_end
   \<and> ActionReturn 0 \<in> set (trace ex_fmt_end)
   \<and> last (trace ex_fmt_end) = ManifestSave
   \<and> detached ex_fmt_end = [(0, ex_a)]
   \<and> tm_getFileData (manifest ex_fmt_end) ''fmt'' ''/a''
        = Some \<lparr>hash = ''#raw'', timestamp = ''t1''\<rparr>
   \<and> storage ex_fmt_end = Some (manifest ex_fmt_end)
   \<and> snd (getFileData (fs ex_fmt_end) ex_a) = Inr \<lparr>hash = ''#tidy'', timestamp = ''t2''\<rparr>"
proof -
  have "exec_main [Resume 0, ActionDone 0, Finish 0] [''fmt''] ex_fmt_proc \<noteq> None"
    by (simp add: ex_fmt_eval)
  then have r: "exec_main [Resume 0, ActionDone 0, Finish 0] [''fmt''] ex_fmt_proc
                  = Some ex_fmt_end"
    by (simp add: ex_fmt_end_def)
  have a: "0 \<in> doneTasks ex_fmt_end" "ActionReturn 0 \<in> set (trace ex_fmt_end)"
    "last (trace ex_fmt_end) = ManifestSave"
    by (simp_all add: ex_fmt_end_def ex_fmt_eval)
  have b: "detached ex_fmt_end = [(0, ex_a)]"
    by (simp add: ex_fmt_end_def ex_fmt_eval)
  have c: "tm_getFileData (manifest ex_fmt_end) ''fmt'' ''/a''
        = Some \<lparr>hash = ''#raw'', timestamp = ''t1''\<rparr>"
    by (simp add: ex_fmt_end_def ex_fmt_eval)
  have d: "storage ex_fmt_end = Some (manifest ex_fmt_end)"
    by (simp add: ex_fmt_end_def ex_fmt_eval)
  have e: "snd (getFileData (fs ex_fmt_end) ex_a) = Inr \<lparr>hash = ''#tidy'', timestamp = ''t2''\<rparr>"
    by (simp add: ex_fmt_end_def ex_fmt_eval)
  show ?thesis
    by (intro conjI r a b c d e)
qed

end
